theory Spec2Isabelle
  imports Main "HOL-Library.Word" "HOL-Library.Sublist"
begin

section \<open>JavaScript strings\<close>

text \<open>
  A JavaScript string is a sequence of 16-bit code units; \<open>length\<close>, \<open>slice\<close> and a
  regular expression without the \<open>u\<close> flag all count code units. An ASCII literal of the
  source is written \<open>asc ''...''\<close>; a character beyond ASCII is written by its code units.
\<close>

type_synonym unit16 = "16 word"
type_synonym jsstring = "unit16 list"

definition asc :: "string \<Rightarrow> jsstring" where
  "asc s = map of_char s"

definition DQ :: unit16 where
  "DQ = 0x22"

definition LT :: unit16 where
  "LT = 0x3C"

definition NL :: unit16 where
  "NL = 0x0A"

section \<open>The regular expressions the updater uses\<close>

text \<open>
  The two patterns of the updater are sequences of literal text and of starred character
  classes, so a pattern is a list of nodes. \<open>StarG\<close> is the greedy \<open>c*\<close>, \<open>StarL\<close> the
  lazy \<open>c*?\<close>, \<open>PlusG\<close> the greedy \<open>c+\<close>.
\<close>

datatype node =
    Lit jsstring
  | StarG "unit16 \<Rightarrow> bool"
  | StarL "unit16 \<Rightarrow> bool"
  | PlusG "unit16 \<Rightarrow> bool"

text \<open>The classes: \<open>[^"]\<close>, \<open>.\<close> under the \<open>s\<close> flag, \<open>[^<]\<close> and \<open>\s\<close>.\<close>

definition notQuote :: "unit16 \<Rightarrow> bool" where
  "notQuote c = (c \<noteq> DQ)"

definition anyUnit :: "unit16 \<Rightarrow> bool" where
  "anyUnit c = True"

definition notLt :: "unit16 \<Rightarrow> bool" where
  "notLt c = (c \<noteq> LT)"

definition isSpace :: "unit16 \<Rightarrow> bool" where
  "isSpace c = (c \<in> {0x09, 0x0A, 0x0B, 0x0C, 0x0D, 0x20, 0xA0, 0x1680, 0x2000, 0x2001,
     0x2002, 0x2003, 0x2004, 0x2005, 0x2006, 0x2007, 0x2008, 0x2009, 0x200A, 0x2028,
     0x2029, 0x202F, 0x205F, 0x3000, 0xFEFF})"

fun startsWith :: "jsstring \<Rightarrow> jsstring \<Rightarrow> bool" where
  "startsWith s [] = True"
| "startsWith [] (l # ls) = False"
| "startsWith (x # xs) (l # ls) = (x = l \<and> startsWith xs ls)"

text \<open>
  \<open>matchSeq ns s\<close> matches the pattern \<open>ns\<close> at the start of \<open>s\<close> by backtracking, in
  the order the JavaScript matcher tries the alternatives: a greedy star takes a code unit
  before it tries the rest of the pattern, a lazy star tries the rest first. The result is
  the text each node consumed, in order; \<open>None\<close> when no way of matching succeeds.
\<close>

fun pushFirst :: "unit16 \<Rightarrow> jsstring list option \<Rightarrow> jsstring list option" where
  "pushFirst x None = None"
| "pushFirst x (Some []) = Some []"
| "pushFirst x (Some (p # ps)) = Some ((x # p) # ps)"

fun matchSeq :: "node list \<Rightarrow> jsstring \<Rightarrow> jsstring list option" where
  "matchSeq [] s = Some []"
| "matchSeq (Lit l # ns) s =
     (if startsWith s l then map_option (Cons l) (matchSeq ns (drop (length l) s)) else None)"
| "matchSeq (StarL c # ns) s =
     (case matchSeq ns s of
        Some ps \<Rightarrow> Some ([] # ps)
      | None \<Rightarrow>
          (case s of
             [] \<Rightarrow> None
           | x # xs \<Rightarrow> if c x then pushFirst x (matchSeq (StarL c # ns) xs) else None))"
| "matchSeq (StarG c # ns) s =
     (case s of
        [] \<Rightarrow> map_option (Cons []) (matchSeq ns s)
      | x # xs \<Rightarrow>
          if c x then
            (case matchSeq (StarG c # ns) xs of
               Some ps \<Rightarrow> pushFirst x (Some ps)
             | None \<Rightarrow> map_option (Cons []) (matchSeq ns s))
          else map_option (Cons []) (matchSeq ns s))"
| "matchSeq (PlusG c # ns) s =
     (case s of
        [] \<Rightarrow> None
      | x # xs \<Rightarrow> if c x then pushFirst x (matchSeq (StarG c # ns) xs) else None)"

text \<open>
  \<open>String.prototype.replace\<close> with a pattern that has no \<open>g\<close> flag looks for the match
  at the lowest start index: \<open>search ns s i\<close> tries every start position of \<open>s\<close> from the
  left (the end of the string included) and returns the index and the parts of the first
  match; \<open>i\<close> is the index of the head of \<open>s\<close> in the whole document.
\<close>

fun search :: "node list \<Rightarrow> jsstring \<Rightarrow> nat \<Rightarrow> (nat \<times> jsstring list) option" where
  "search ns [] i = map_option (Pair i) (matchSeq ns [])"
| "search ns (x # xs) i =
     (case matchSeq ns (x # xs) of
        Some ps \<Rightarrow> Some (i, ps)
      | None \<Rightarrow> search ns xs (Suc i))"

section \<open>The updater\<close>

subsection \<open>Articles and card rendering\<close>

text \<open>
  An article as the news provider's JSON gives it. A field is \<open>None\<close> when the property
  is absent or \<open>null\<close>; the fields that are present are strings.
\<close>

datatype source = Source (name: "jsstring option")

record article =
  title :: "jsstring option"
  description :: "jsstring option"
  content :: "jsstring option"
  publishedAt :: "jsstring option"
  source :: "source option"
  url :: "jsstring option"

text \<open>\<open>x || d\<close> on a string property: the empty string is falsy, as an absent one is.\<close>

fun orElse :: "jsstring option \<Rightarrow> jsstring \<Rightarrow> jsstring" where
  "orElse None d = d"
| "orElse (Some []) d = d"
| "orElse (Some (c # cs)) d = c # cs"

text \<open>\<open>.replace(/"/g, '&quot;')\<close>: every double quote becomes the six units of the entity.\<close>

definition escapeQuotes :: "jsstring \<Rightarrow> jsstring" where
  "escapeQuotes s = concat (map (\<lambda>c. if c = DQ then asc ''&quot;'' else [c]) s)"

text \<open>\<open>.slice(0, n)\<close> on a string.\<close>

definition slice0 :: "nat \<Rightarrow> jsstring \<Rightarrow> jsstring" where
  "slice0 n s = take n s"

text \<open>
  \<open>formatDate\<close> hands its argument to the runtime's \<open>Date\<close> and the \<open>en-US\<close> long
  date format; that formatter is the parameter \<open>localeDate\<close>.
\<close>

definition formatDate :: "(jsstring option \<Rightarrow> jsstring) \<Rightarrow> jsstring option \<Rightarrow> jsstring" where
  "formatDate localeDate dateStr = localeDate dateStr"

text \<open>The five constants of the arrow function in \<open>buildCards\<close>.\<close>

definition cardTitle :: "article \<Rightarrow> jsstring" where
  "cardTitle a = slice0 80 (escapeQuotes (orElse (title a) []))"

definition noContent :: jsstring where
  "noContent = [0xB0B4, 0xC6A9, 0x20, 0xC5C6, 0xC74C]"

definition cardDesc :: "article \<Rightarrow> jsstring" where
  "cardDesc a =
     slice0 200 (escapeQuotes (orElse (description a) (orElse (content a) noContent)))"

definition cardSource :: "article \<Rightarrow> jsstring" where
  "cardSource a =
     orElse (case source a of None \<Rightarrow> None | Some src \<Rightarrow> name src) (asc ''News'')"

definition cardUrl :: "article \<Rightarrow> jsstring" where
  "cardUrl a = orElse (url a) (asc ''#'')"

definition card :: "(jsstring option \<Rightarrow> jsstring) \<Rightarrow> jsstring \<Rightarrow> article \<Rightarrow> jsstring" where
  \<open>card localeDate emoji a =
     asc ''\<newline>                <div class="card fade-in">\<newline>                    <div class="card-image">''
     @ emoji
     @ asc ''</div>\<newline>                    <div class="card-content">\<newline>                        <div class="card-meta">''
     @ formatDate localeDate (publishedAt a)
     @ asc '' '' @ [0xB7] @ asc '' ''
     @ cardSource a
     @ asc ''</div>\<newline>                        <h3 class="card-title">''
     @ cardTitle a
     @ asc ''</h3>\<newline>                        <p class="card-summary">''
     @ cardDesc a
     @ asc ''</p>\<newline>                        <div class="card-footer">\<newline>                            <span class="card-tag">Latest News</span>\<newline>                            <a href="''
     @ cardUrl a
     @ asc ''" class="read-more" target="_blank">Read More</a>\<newline>                        </div>\<newline>                    </div>\<newline>                </div>''\<close>

text \<open>\<open>Array.prototype.join\<close>.\<close>

fun joinWith :: "jsstring \<Rightarrow> jsstring list \<Rightarrow> jsstring" where
  "joinWith sep [] = []"
| "joinWith sep [x] = x"
| "joinWith sep (x # y # ys) = x @ sep @ joinWith sep (y # ys)"

definition defaultEmoji :: jsstring where
  "defaultEmoji = [0xD83D, 0xDCF0]"

text \<open>The second argument is \<open>None\<close> when the caller leaves it out.\<close>

definition buildCards ::
  "(jsstring option \<Rightarrow> jsstring) \<Rightarrow> article list \<Rightarrow> jsstring option \<Rightarrow> jsstring" where
  "buildCards localeDate articles emoji =
     (if articles = [] then []
      else joinWith [NL]
             (map (card localeDate (case emoji of None \<Rightarrow> defaultEmoji | Some e \<Rightarrow> e))
                articles))"

subsection \<open>Section replacement\<close>

text \<open>
  The pattern of \<open>replaceSection\<close> is three capture groups in a row. The section id is
  spliced into the pattern's source text, so the runtime compiles it as part of the pattern:
  in an id such as \<open>u.\<close> the dot stands for any unit, and an id such as \<open>a(b\<close> makes
  \<open>new RegExp\<close> throw. \<open>sectionOpen\<close> reads the id as literal text. That is the pattern
  the runtime compiles, without an error, exactly for the ids \<open>plainId\<close> describes: those
  with none of the units \<open>\ ^ $ . * + ? ( ) [ ] { } |\<close>, as \<open>us\<close> and \<open>china\<close> of
  \<open>main\<close> are. What is proved of \<open>replaceSection\<close> for such ids is stated with
  \<open>plainId\<close> as a hypothesis.
\<close>

definition plainId :: "jsstring \<Rightarrow> bool" where
  "plainId sectionId =
     list_all (\<lambda>c. c \<notin> {0x5C, 0x5E, 0x24, 0x2E, 0x2A, 0x2B, 0x3F, 0x28, 0x29, 0x5B, 0x5D,
       0x7B, 0x7D, 0x7C}) sectionId"

definition sectionOpen :: "jsstring \<Rightarrow> node list" where
  \<open>sectionOpen sectionId =
     [Lit (asc ''<div id="'' @ sectionId @ asc ''" class="section''), StarG notQuote,
      Lit (asc ''">''), StarL anyUnit, Lit (asc ''<div class="card-grid">'')]\<close>

definition sectionOld :: "node list" where
  "sectionOld = [StarL anyUnit]"

definition sectionClose :: "node list" where
  "sectionClose =
     [Lit (asc ''</div>''), StarG isSpace, Lit (asc ''</div>''), StarG isSpace,
      Lit (asc ''</div>'')]"

definition sectionRegex :: "jsstring \<Rightarrow> node list" where
  "sectionRegex sectionId = sectionOpen sectionId @ sectionOld @ sectionClose"

text \<open>
  The replacer function gets the texts of the first and the third group; they are the
  parts of the five nodes of \<open>sectionOpen\<close> and of the five nodes of \<open>sectionClose\<close>.
\<close>

definition replaceSection :: "jsstring \<Rightarrow> jsstring \<Rightarrow> jsstring \<Rightarrow> jsstring" where
  "replaceSection html sectionId newCards =
     (case search (sectionRegex sectionId) html 0 of
        None \<Rightarrow> html
      | Some (i, ps) \<Rightarrow>
          take i html
          @ (concat (take 5 ps) @ [NL] @ newCards @ asc ''\<newline>            ''
             @ concat (drop 6 ps))
          @ drop (i + length (concat ps)) html)"

subsection \<open>The timestamp\<close>

text \<open>
  \<open>dateStr\<close> is what the runtime's \<open>en-US\<close> long date format gives for the current day
  (a month name, digits, a comma and spaces), so the replacement string holds no \<open>$\<close>
  pattern and is inserted as it is.
\<close>

definition lastUpdatedRegex :: "node list" where
  "lastUpdatedRegex = [Lit (asc ''Last Updated: ''), PlusG notLt]"

definition updateLastModified :: "jsstring \<Rightarrow> jsstring \<Rightarrow> jsstring" where
  "updateLastModified dateStr html =
     (case search lastUpdatedRegex html 0 of
        None \<Rightarrow> html
      | Some (i, ps) \<Rightarrow>
          take i html @ (asc ''Last Updated: '' @ dateStr)
          @ drop (i + length (concat ps)) html)"

subsection \<open>Fetching the news\<close>

text \<open>
  The provider's answer to one request, as \<open>fetchNews\<close> sees it once the request has
  settled: the connection fails, or a body arrives. \<open>Body None\<close> is a body that
  \<open>JSON.parse\<close> refuses; \<open>Body (Some JNull)\<close> parses to \<open>null\<close>, whose properties
  cannot be read; any other parsed value is a \<open>JValue\<close> with its \<open>status\<close> property
  (when it is a string) and its \<open>articles\<close> property: \<open>None\<close> when the property is absent
  or falsy (\<open>null\<close>, \<open>false\<close>, \<open>0\<close>, the empty string), otherwise the array, or a truthy
  value that is not an array (a string, a number, \<open>true\<close>, an object). Of such a value the
  run reads the \<open>length\<close> property only; the flag of \<open>NonArray\<close> says whether that is
  truthy. \<open>fetchNews\<close> does not look at the elements of the array, so their type is open.
\<close>

datatype error = SyntaxError | TypeError | NetError | FsError

datatype 'a articlesValue = ArticleArray "'a list" | NonArray bool

datatype 'a json =
  JNull | JValue (status: "jsstring option") (articles: "'a articlesValue option")

datatype 'a response = NetFailure | Body "'a json option"

text \<open>The query parameters of the request, in the order the source lists them.\<close>

type_synonym request = "(string \<times> jsstring) list"

definition newsRequest :: "jsstring \<Rightarrow> jsstring \<Rightarrow> jsstring \<Rightarrow> request" where
  "newsRequest query fromDate key =
     [(''q'', query), (''from'', fromDate), (''sortBy'', asc ''publishedAt''),
      (''language'', asc ''en''), (''apiKey'', key), (''pageSize'', asc ''5'')]"

text \<open>
  The promise \<open>fetchNews\<close> returns, settled: \<open>Inr\<close> is \<open>resolve\<close>, \<open>Inl\<close> is
  \<open>reject\<close>. \<open>NEWS_API_KEY\<close> and the provider are the first two arguments.
  \<open>resolve(json.articles || [])\<close> hands on a truthy \<open>articles\<close> property as it is, array
  or not.
\<close>

definition fetchNews ::
  "jsstring \<Rightarrow> (request \<Rightarrow> 'a response) \<Rightarrow> jsstring \<Rightarrow> jsstring
     \<Rightarrow> error + 'a articlesValue" where
  "fetchNews NEWS_API_KEY provider query fromDate =
     (if NEWS_API_KEY = [] then Inr (ArticleArray [])
      else
        (case provider (newsRequest query fromDate NEWS_API_KEY) of
           NetFailure \<Rightarrow> Inl NetError
         | Body None \<Rightarrow> Inl SyntaxError
         | Body (Some JNull) \<Rightarrow> Inl TypeError
         | Body (Some (JValue st arts)) \<Rightarrow>
             if st = Some (asc ''ok'') then
               Inr (case arts of None \<Rightarrow> ArticleArray [] | Some v \<Rightarrow> v)
             else Inr (ArticleArray [])))"

subsection \<open>The run\<close>

definition QUERIES_us :: jsstring where
  "QUERIES_us = asc ''autonomous driving simulation Unreal Engine NVIDIA Waymo''"

definition QUERIES_china :: jsstring where
  "QUERIES_china =
     [0x81EA, 0x52A8, 0x9A7E, 0x9A76, 0x20, 0x4EFF, 0x771F, 0x20, 0x4E2D, 0x56FD]
     @ asc '' OR autonomous driving simulation China''"

text \<open>
  What the run reads from its surroundings: the credential, the provider, the date two
  weeks back and the current day as the runtime formats them, and the date formatter.
\<close>

record runtime =
  apiKey :: jsstring
  provider :: "request \<Rightarrow> article response"
  fromDate :: jsstring
  today :: jsstring
  localeDate :: "jsstring option \<Rightarrow> jsstring"

text \<open>
  The document on disk: its text (\<open>None\<close> when \<open>readFileSync\<close> throws) and whether
  \<open>writeFileSync\<close> succeeds.
\<close>

record disk =
  indexHtml :: "jsstring option"
  writable :: bool

text \<open>
  \<open>main\<close> returns the disk after the run and the error its \<open>catch\<close> logged, if any.
  \<open>Promise.all\<close> rejects as soon as one of the two fetches rejects; when both reject, the
  model reports the error of the first. A section is patched when \<open>length\<close> of what the
  fetch resolved with is truthy: for a value that is not an array, \<open>buildCards\<close> then gets
  past its guard and calls \<open>articles.map\<close>, which is not a function, and the
  \<open>TypeError\<close> ends the run in the \<open>catch\<close>.
\<close>

definition main :: "runtime \<Rightarrow> disk \<Rightarrow> disk \<times> error option" where
  "main rt fs =
     (case fetchNews (apiKey rt) (provider rt) QUERIES_us (fromDate rt) of
        Inl e \<Rightarrow> (fs, Some e)
      | Inr usArticles \<Rightarrow>
          (case fetchNews (apiKey rt) (provider rt) QUERIES_china (fromDate rt) of
             Inl e \<Rightarrow> (fs, Some e)
           | Inr chinaArticles \<Rightarrow>
               (case indexHtml fs of
                  None \<Rightarrow> (fs, Some FsError)
                | Some html0 \<Rightarrow>
                    (case (case usArticles of
                             ArticleArray as \<Rightarrow>
                               Inr (if as \<noteq> [] then
                                      replaceSection html0 (asc ''us'')
                                        (buildCards (localeDate rt) as (Some [0xD83E, 0xDD16]))
                                    else html0)
                           | NonArray hasLength \<Rightarrow>
                               if hasLength then Inl TypeError else Inr html0) of
                       Inl e \<Rightarrow> (fs, Some e)
                     | Inr html1 \<Rightarrow>
                         (case (case chinaArticles of
                                  ArticleArray as \<Rightarrow>
                                    Inr (if as \<noteq> [] then
                                           replaceSection html1 (asc ''china'')
                                             (buildCards (localeDate rt) as
                                                (Some [0xD83D, 0xDD2C]))
                                         else html1)
                                | NonArray hasLength \<Rightarrow>
                                    if hasLength then Inl TypeError else Inr html1) of
                            Inl e \<Rightarrow> (fs, Some e)
                          | Inr html2 \<Rightarrow>
                              let html3 = updateLastModified (today rt) html2
                              in if writable fs then (fs\<lparr>indexHtml := Some html3\<rparr>, None)
                                 else (fs, Some FsError))))))"

section \<open>The static server\<close>

text \<open>
  The handler's answer: the status and the \<open>Content-Type\<close> header of \<open>writeHead\<close> and
  the body of \<open>end\<close>.
\<close>

record reply =
  statusCode :: nat
  contentType :: jsstring
  body :: jsstring

definition notFoundBody :: jsstring where
  "notFoundBody =
     asc ''<h1>404 - ''
     @ [0xD30C, 0xC77C, 0xC744, 0x20, 0xCC3E, 0xC744, 0x20, 0xC218, 0x20, 0xC5C6, 0xC2B5,
        0xB2C8, 0xB2E4]
     @ asc ''</h1>''"

text \<open>
  \<open>path.join\<close> and \<open>path.extname\<close> are the runtime's, and differ between platforms:
  they are parameters, as are \<open>__dirname\<close> and the file system (\<open>readFile\<close> gives
  \<open>None\<close> when the callback gets an error, whatever its cause).
\<close>

definition handler ::
  "(jsstring \<Rightarrow> jsstring \<Rightarrow> jsstring) \<Rightarrow> (jsstring \<Rightarrow> jsstring) \<Rightarrow> jsstring
     \<Rightarrow> (jsstring \<Rightarrow> jsstring option) \<Rightarrow> jsstring \<Rightarrow> reply" where
  "handler pathJoin pathExtname dirname readFile reqUrl =
     (let filePath = pathJoin dirname (if reqUrl = asc ''/'' then asc ''/index.html'' else reqUrl)
      in case readFile filePath of
           None \<Rightarrow>
             \<lparr>statusCode = 404, contentType = asc ''text/html; charset=utf-8'',
              body = notFoundBody\<rparr>
         | Some data \<Rightarrow>
             let ext = pathExtname filePath;
                 contentType0 = asc ''text/html; charset=utf-8'';
                 contentType1 =
                   (if ext = asc ''.css'' then asc ''text/css; charset=utf-8'' else contentType0);
                 contentType2 =
                   (if ext = asc ''.js'' then asc ''application/javascript; charset=utf-8''
                    else contentType1)
             in \<lparr>statusCode = 200, contentType = contentType2, body = data\<rparr>)"

subsection \<open>A path module for sample requests\<close>

text \<open>
  The POSIX variant of the runtime's \<open>path.join\<close> and \<open>path.extname\<close>, to run the
  handler on sample requests: \<open>join\<close> puts a \<open>/\<close> between its non-empty arguments and
  normalises the result (empty and \<open>.\<close> segments dropped, \<open>..\<close> resolved); \<open>extname\<close>
  is the last portion of the path from its last \<open>.\<close>, empty when there is none, when the
  portion starts with its only \<open>.\<close>, or when the portion is \<open>..\<close>.
\<close>

definition SLASH :: unit16 where
  "SLASH = 0x2F"

definition DOT :: unit16 where
  "DOT = 0x2E"

fun splitSlash :: "jsstring \<Rightarrow> jsstring list" where
  "splitSlash [] = [[]]"
| "splitSlash (c # cs) =
     (if c = SLASH then [] # splitSlash cs
      else (case splitSlash cs of [] \<Rightarrow> [[c]] | seg # segs \<Rightarrow> (c # seg) # segs))"

fun normalizeSegments :: "bool \<Rightarrow> jsstring list \<Rightarrow> jsstring list \<Rightarrow> jsstring list" where
  "normalizeSegments allowAboveRoot [] res = rev res"
| "normalizeSegments allowAboveRoot (seg # segs) res =
     (if seg = [] \<or> seg = [DOT] then normalizeSegments allowAboveRoot segs res
      else if seg = [DOT, DOT] then
        (case res of
           t # ts \<Rightarrow>
             if t \<noteq> [DOT, DOT] then normalizeSegments allowAboveRoot segs ts
             else if allowAboveRoot then normalizeSegments allowAboveRoot segs (seg # res)
             else normalizeSegments allowAboveRoot segs res
         | [] \<Rightarrow>
             if allowAboveRoot then normalizeSegments allowAboveRoot segs [seg]
             else normalizeSegments allowAboveRoot segs [])
      else normalizeSegments allowAboveRoot segs (seg # res))"

definition posixNormalize :: "jsstring \<Rightarrow> jsstring" where
  "posixNormalize p =
     (if p = [] then [DOT]
      else
        let isAbsolute = (hd p = SLASH);
            trailingSeparator = (last p = SLASH);
            q = joinWith [SLASH] (normalizeSegments (\<not> isAbsolute) (splitSlash p) [])
        in if q = [] then
             (if isAbsolute then [SLASH] else if trailingSeparator then [DOT, SLASH] else [DOT])
           else (if isAbsolute then [SLASH] else []) @ q
                @ (if trailingSeparator then [SLASH] else []))"

definition posixJoin :: "jsstring \<Rightarrow> jsstring \<Rightarrow> jsstring" where
  "posixJoin a b =
     (if a = [] \<and> b = [] then [DOT]
      else posixNormalize (if a = [] then b else if b = [] then a else a @ [SLASH] @ b))"

definition posixExtname :: "jsstring \<Rightarrow> jsstring" where
  "posixExtname p =
     (let stripped = rev (dropWhile (\<lambda>c. c = SLASH) (rev p));
          base = rev (takeWhile (\<lambda>c. c \<noteq> SLASH) (rev stripped));
          afterDot = rev (takeWhile (\<lambda>c. c \<noteq> DOT) (rev base))
      in if DOT \<notin> set base then []
         else if Suc (length afterDot) = length base then []
         else if base = [DOT, DOT] then []
         else DOT # afterDot)"

definition sampleFiles :: "jsstring \<Rightarrow> jsstring option" where
  "sampleFiles p =
     (if p = asc ''/srv/site/index.html'' then Some (asc ''<html></html>'')
      else if p = asc ''/srv/site/styles.css'' then Some (asc ''body{}'')
      else None)"

section \<open>What a pattern means\<close>

text \<open>
  The meaning of a pattern, apart from the matcher: a node accepts a text, a pattern accepts
  the concatenation of texts its nodes accept, and a pattern matches a document at index
  \<open>i\<close> when the document continues from there with a text the pattern accepts.
\<close>

fun accepts :: "node \<Rightarrow> jsstring \<Rightarrow> bool" where
  "accepts (Lit l) p = (p = l)"
| "accepts (StarG c) p = list_all c p"
| "accepts (StarL c) p = list_all c p"
| "accepts (PlusG c) p = (p \<noteq> [] \<and> list_all c p)"

definition matchesAt :: "node list \<Rightarrow> jsstring \<Rightarrow> nat \<Rightarrow> bool" where
  "matchesAt ns html i =
     (i \<le> length html \<and> (\<exists>ps. list_all2 accepts ns ps \<and> prefix (concat ps) (drop i html)))"

section \<open>Sample inputs\<close>

definition sampleDoc :: jsstring where
  \<open>sampleDoc = asc ''<div id="us" class="section"><div class="card-grid">old</div></div></div>''\<close>

definition twoSections :: jsstring where
  \<open>twoSections = asc ''<div id="us" class="section"><div class="card-grid">A</div></div></div><div id="us" class="section"><div class="card-grid">B</div></div></div>''\<close>

definition sampleArticle :: article where
  "sampleArticle = \<lparr>title = Some (asc ''Waymo''), description = None, content = None,
     publishedAt = None, source = None, url = None\<rparr>"

definition longQuotedTitle :: jsstring where
  "longQuotedTitle = DQ # replicate 80 0x61"

definition quotedArticle :: article where
  \<open>quotedArticle = \<lparr>title = Some longQuotedTitle, description = Some (asc ''He said "go"''),
     content = None, publishedAt = Some (asc ''2026-10-30T08:00:00Z''),
     source = Some (Source (Some (asc ''Wired''))),
     url = Some (asc ''https://news.test/?q="waymo"'')\<rparr>\<close>

definition sampleRuntime :: "(request \<Rightarrow> article response) \<Rightarrow> runtime" where
  "sampleRuntime p = \<lparr>apiKey = asc ''key'', provider = p, fromDate = asc ''2026-10-19'',
     today = asc ''November 2, 2026'', localeDate = (\<lambda>d. asc ''October 30, 2026'')\<rparr>"

definition sampleDisk :: disk where
  "sampleDisk = \<lparr>indexHtml = Some sampleDoc, writable = True\<rparr>"

section \<open>The matcher finds what the pattern means\<close>

text \<open>
  The backtracking matcher is sound and complete for the meaning of a pattern: what it
  returns is accepted node by node and is a prefix of the text, and it returns something
  whenever some accepted text is a prefix.
\<close>

lemma startsWith_prefix: "startsWith s l = prefix l s"
  by (induction s l rule: startsWith.induct) auto

lemma pushFirst_SomeD:
  "pushFirst x r = Some qs \<Longrightarrow> \<exists>rs. r = Some rs \<and> (case rs of [] \<Rightarrow> qs = [] | p # ps \<Rightarrow> qs = (x # p) # ps)"
  by (cases "(x, r)" rule: pushFirst.cases) auto

lemma pushFirst_nonempty: "rs \<noteq> [] \<Longrightarrow> \<exists>qs. pushFirst x (Some rs) = Some qs"
  by (cases rs) auto

lemma matchSeq_StarL_cases:
  assumes "matchSeq (StarL c # ns) s = Some ps"
  obtains (stop) qs where "matchSeq ns s = Some qs" "ps = [] # qs"
  | (step) x xs rs where "matchSeq ns s = None" "s = x # xs" "c x"
      "matchSeq (StarL c # ns) xs = Some rs"
      "case rs of [] \<Rightarrow> ps = [] | p # qs \<Rightarrow> ps = (x # p) # qs"
proof (cases "matchSeq ns s")
  case (Some qs)
  with assms have "ps = [] # qs" by simp
  with Some show ?thesis by (rule stop)
next
  case None
  show ?thesis
  proof (cases s)
    case Nil
    with None assms show ?thesis by simp
  next
    case (Cons x xs)
    with None assms have cx: "c x" and pf: "pushFirst x (matchSeq (StarL c # ns) xs) = Some ps"
      by (simp_all split: if_splits del: matchSeq.simps(3) add: matchSeq.simps(3)[of c ns "x # xs"])
    from pushFirst_SomeD[OF pf] obtain rs where "matchSeq (StarL c # ns) xs = Some rs"
      "case rs of [] \<Rightarrow> ps = [] | p # qs \<Rightarrow> ps = (x # p) # qs" by blast
    with None Cons cx show ?thesis by (rule step)
  qed
qed

lemma matchSeq_StarG_cases:
  assumes "matchSeq (StarG c # ns) s = Some ps"
  obtains (stop) qs where "matchSeq ns s = Some qs" "ps = [] # qs"
      "s = [] \<or> \<not> c (hd s) \<or> matchSeq (StarG c # ns) (tl s) = None"
  | (step) x xs rs where "s = x # xs" "c x"
      "matchSeq (StarG c # ns) xs = Some rs"
      "case rs of [] \<Rightarrow> ps = [] | p # qs \<Rightarrow> ps = (x # p) # qs"
proof (cases s)
  case Nil
  with assms obtain qs where "matchSeq ns s = Some qs" "ps = [] # qs" by auto
  with Nil show ?thesis by (intro stop) auto
next
  case (Cons x xs)
  show ?thesis
  proof (cases "c x")
    case False
    with Cons assms obtain qs where "matchSeq ns s = Some qs" "ps = [] # qs"
      by (auto simp del: matchSeq.simps(4) simp add: matchSeq.simps(4)[of c ns "x # xs"])
    with Cons False show ?thesis by (intro stop) auto
  next
    case True
    show ?thesis
    proof (cases "matchSeq (StarG c # ns) xs")
      case None
      with Cons True assms obtain qs where "matchSeq ns s = Some qs" "ps = [] # qs"
        by (auto simp del: matchSeq.simps(4) simp add: matchSeq.simps(4)[of c ns "x # xs"])
      with Cons None show ?thesis by (intro stop) auto
    next
      case (Some rs)
      with Cons True assms have "pushFirst x (Some rs) = Some ps"
        by (simp del: matchSeq.simps(4) add: matchSeq.simps(4)[of c ns "x # xs"])
      then have "case rs of [] \<Rightarrow> ps = [] | p # qs \<Rightarrow> ps = (x # p) # qs"
        by (cases rs) auto
      with Cons True Some show ?thesis by (intro step)
    qed
  qed
qed

lemma matchSeq_PlusG_cases:
  assumes "matchSeq (PlusG c # ns) s = Some ps"
  obtains x xs rs where "s = x # xs" "c x" "matchSeq (StarG c # ns) xs = Some rs"
      "case rs of [] \<Rightarrow> ps = [] | p # qs \<Rightarrow> ps = (x # p) # qs"
proof (cases s)
  case Nil
  with assms show ?thesis by simp
next
  case (Cons x xs)
  with assms have cx: "c x" and pf: "pushFirst x (matchSeq (StarG c # ns) xs) = Some ps"
    by (simp_all split: if_splits del: matchSeq.simps(4))
  from pushFirst_SomeD[OF pf] obtain rs where "matchSeq (StarG c # ns) xs = Some rs"
      "case rs of [] \<Rightarrow> ps = [] | p # qs \<Rightarrow> ps = (x # p) # qs" by blast
  with Cons cx show ?thesis by (rule that)
qed

lemma matchSeq_sound:
  "matchSeq ns s = Some ps \<Longrightarrow> list_all2 accepts ns ps \<and> prefix (concat ps) s"
proof (induction ns s arbitrary: ps rule: matchSeq.induct)
  case (1 s)
  then show ?case by simp
next
  case (2 l ns s)
  from "2.prems" have pl: "prefix l s" and "\<exists>qs. matchSeq ns (drop (length l) s) = Some qs \<and> ps = l # qs"
    by (auto simp: startsWith_prefix split: if_splits)
  then obtain qs where qs: "matchSeq ns (drop (length l) s) = Some qs" "ps = l # qs" by blast
  from pl have sw: "startsWith s l" by (simp add: startsWith_prefix)
  from "2.IH"[OF sw qs(1)] have "list_all2 accepts ns qs" "prefix (concat qs) (drop (length l) s)"
    by auto
  moreover from pl obtain r where "s = l @ r" by (auto simp: prefix_def)
  ultimately show ?case using qs(2) by auto
next
  case (3 c ns s)
  from "3.prems" show ?case
  proof (cases rule: matchSeq_StarL_cases)
    case (stop qs)
    with "3.IH"(1) show ?thesis by auto
  next
    case (step x xs rs)
    from "3.IH"(2)[OF step(1) step(2) step(3) step(4)]
    have "list_all2 accepts (StarL c # ns) rs" "prefix (concat rs) xs" by auto
    with step show ?thesis by (cases rs) auto
  qed
next
  case (4 c ns s)
  from "4.prems" show ?case
  proof (cases rule: matchSeq_StarG_cases)
    case (stop qs)
    have "list_all2 accepts ns qs \<and> prefix (concat qs) s"
    proof (cases s)
      case Nil
      with stop "4.IH"(1) show ?thesis by auto
    next
      case (Cons x xs)
      show ?thesis
      proof (cases "c x")
        case False
        with Cons stop "4.IH"(4) show ?thesis by auto
      next
        case True
        with Cons stop have "matchSeq (StarG c # ns) xs = None" by auto
        with Cons True stop "4.IH"(3) show ?thesis by auto
      qed
    qed
    with stop show ?thesis by auto
  next
    case (step x xs rs)
    from "4.IH"(2)[OF step(1) step(2) step(3)]
    have "list_all2 accepts (StarG c # ns) rs" "prefix (concat rs) xs" by auto
    with step show ?thesis by (cases rs) auto
  qed
next
  case (5 c ns s)
  from "5.prems" show ?case
  proof (cases rule: matchSeq_PlusG_cases)
    case (1 x xs rs)
    from "5.IH"[OF 1(1) 1(2) 1(3)]
    have "list_all2 accepts (StarG c # ns) rs" "prefix (concat rs) xs" by auto
    with 1 show ?thesis by (cases rs) auto
  qed
qed

lemma matchSeq_length: "matchSeq ns s = Some ps \<Longrightarrow> length ps = length ns"
  by (drule matchSeq_sound) (auto dest: list_all2_lengthD)

lemma matchSeq_complete:
  "list_all2 accepts ns ps \<Longrightarrow> prefix (concat ps) s \<Longrightarrow> \<exists>qs. matchSeq ns s = Some qs"
proof (induction ns s arbitrary: ps rule: matchSeq.induct)
  case (1 s)
  then show ?case by simp
next
  case (2 l ns s)
  from "2.prems"(1) obtain qs where ps: "ps = l # qs" and qs: "list_all2 accepts ns qs"
    by (cases ps) auto
  from "2.prems"(2) ps obtain r where s: "s = l @ concat qs @ r" by (auto simp: prefix_def)
  then have sw: "startsWith s l" by (simp add: startsWith_prefix)
  from s have "prefix (concat qs) (drop (length l) s)" by simp
  from "2.IH"[OF sw qs this] sw show ?case by auto
next
  case (3 c ns s)
  from "3.prems"(1) obtain p qs where ps: "ps = p # qs" and p: "list_all c p"
    and qs: "list_all2 accepts ns qs" by (cases ps) auto
  show ?case
  proof (cases "matchSeq ns s")
    case (Some rs)
    then show ?thesis by simp
  next
    case None
    have "p \<noteq> []"
    proof
      assume "p = []"
      with "3.prems"(2) ps have "prefix (concat qs) s" by simp
      from "3.IH"(1)[OF qs this] None show False by simp
    qed
    then obtain x p' where p': "p = x # p'" by (cases p) auto
    with "3.prems"(2) ps obtain xs where s: "s = x # xs" and pre: "prefix (concat (p' # qs)) xs"
      by (cases s) auto
    from p p' have cx: "c x" and "list_all c p'" by auto
    with qs have "list_all2 accepts (StarL c # ns) (p' # qs)" by simp
    from "3.IH"(2)[OF None s cx this pre] obtain rs where
      rs: "matchSeq (StarL c # ns) xs = Some rs" by blast
    from matchSeq_length[OF rs] have "rs \<noteq> []" by auto
    from pushFirst_nonempty[OF this] obtain zs where "pushFirst x (Some rs) = Some zs" by blast
    with None s cx rs show ?thesis
      by (simp del: matchSeq.simps(3) add: matchSeq.simps(3)[of c ns "x # xs"])
  qed
next
  case (4 c ns s)
  from "4.prems"(1) obtain p qs where ps: "ps = p # qs" and p: "list_all c p"
    and qs: "list_all2 accepts ns qs" by (cases ps) auto
  show ?case
  proof (cases s)
    case Nil
    with "4.prems"(2) ps have "prefix (concat qs) s" by simp
    from "4.IH"(1)[OF Nil qs this] Nil show ?thesis by auto
  next
    case (Cons x xs)
    show ?thesis
    proof (cases "c x")
      case False
      have "p = []"
      proof (cases p)
        case (Cons y ys)
        with "4.prems"(2) ps \<open>s = x # xs\<close> have "y = x" by simp
        with Cons p False show ?thesis by simp
      qed simp
      with "4.prems"(2) ps have "prefix (concat qs) s" by simp
      from "4.IH"(4)[OF Cons False qs this] Cons False show ?thesis
        by (auto simp del: matchSeq.simps(4) simp add: matchSeq.simps(4)[of c ns "x # xs"])
    next
      case True
      show ?thesis
      proof (cases "matchSeq (StarG c # ns) xs")
        case (Some rs)
        from matchSeq_length[OF Some] have "rs \<noteq> []" by auto
        from pushFirst_nonempty[OF this] obtain zs where "pushFirst x (Some rs) = Some zs"
          by blast
        with Cons True Some show ?thesis
          by (simp del: matchSeq.simps(4) add: matchSeq.simps(4)[of c ns "x # xs"])
      next
        case None
        have "p = []"
        proof (cases p)
          case (Cons y ys)
          with "4.prems"(2) ps \<open>s = x # xs\<close> have pre: "prefix (concat (ys # qs)) xs" by simp
          from p Cons qs have "list_all2 accepts (StarG c # ns) (ys # qs)" by simp
          from "4.IH"(2)[OF \<open>s = x # xs\<close> True this pre] None show ?thesis by simp
        qed simp
        with "4.prems"(2) ps have "prefix (concat qs) s" by simp
        from "4.IH"(3)[OF Cons True None qs this] Cons True None show ?thesis
          by (auto simp del: matchSeq.simps(4) simp add: matchSeq.simps(4)[of c ns "x # xs"])
      qed
    qed
  qed
next
  case (5 c ns s)
  from "5.prems"(1) obtain p qs where ps: "ps = p # qs" and p: "list_all c p" "p \<noteq> []"
    and qs: "list_all2 accepts ns qs" by (cases ps) auto
  from p obtain x p' where p': "p = x # p'" by (cases p) auto
  with "5.prems"(2) ps obtain xs where s: "s = x # xs" and pre: "prefix (concat (p' # qs)) xs"
    by (cases s) auto
  from p p' have cx: "c x" and "list_all c p'" by auto
  with qs have "list_all2 accepts (StarG c # ns) (p' # qs)" by simp
  from "5.IH"[OF s cx this pre] obtain rs where rs: "matchSeq (StarG c # ns) xs = Some rs"
    by blast
  from matchSeq_length[OF rs] have "rs \<noteq> []" by auto
  from pushFirst_nonempty[OF this] obtain zs where "pushFirst x (Some rs) = Some zs" by blast
  with s cx rs show ?case by (simp del: matchSeq.simps(4))
qed

lemma matchesAt_iff: "matchesAt ns html i \<longleftrightarrow> i \<le> length html \<and> matchSeq ns (drop i html) \<noteq> None"
  unfolding matchesAt_def
  using matchSeq_complete[of ns _ "drop i html"] matchSeq_sound[of ns "drop i html"]
  by (cases "matchSeq ns (drop i html)") auto

subsection \<open>What the parts of a match tell\<close>

text \<open>
  The parts after the first are what the matcher returns for the rest of the pattern on
  the rest of the text; a lazy star takes the shortest text after which the rest matches; a
  greedy star at the end of a pattern takes every unit it can.
\<close>

lemma StarL_tail:
  "matchSeq (StarL c # ns) s = Some (p # ps) \<Longrightarrow> matchSeq ns (drop (length p) s) = Some ps"
proof (induction s arbitrary: p)
  case Nil
  from Nil.prems show ?case by (cases rule: matchSeq_StarL_cases) auto
next
  case (Cons y ys)
  from Cons.prems show ?case
  proof (cases rule: matchSeq_StarL_cases)
    case (stop qs)
    then show ?thesis by simp
  next
    case (step x xs rs)
    from matchSeq_length[OF step(4)] obtain p' qs where rs: "rs = p' # qs" by (cases rs) auto
    with step have p: "p = x # p'" "ps = qs" "xs = ys" by auto
    with step(4) rs have "matchSeq (StarL c # ns) ys = Some (p' # ps)" by simp
    from Cons.IH[OF this] p show ?thesis by simp
  qed
qed

lemma StarG_tail:
  "matchSeq (StarG c # ns) s = Some (p # ps) \<Longrightarrow> matchSeq ns (drop (length p) s) = Some ps"
proof (induction s arbitrary: p)
  case Nil
  from Nil.prems show ?case by (cases rule: matchSeq_StarG_cases) auto
next
  case (Cons y ys)
  from Cons.prems show ?case
  proof (cases rule: matchSeq_StarG_cases)
    case (stop qs)
    then show ?thesis by simp
  next
    case (step x xs rs)
    from matchSeq_length[OF step(3)] obtain p' qs where rs: "rs = p' # qs" by (cases rs) auto
    with step have p: "p = x # p'" "ps = qs" "xs = ys" by auto
    with step(3) rs have "matchSeq (StarG c # ns) ys = Some (p' # ps)" by simp
    from Cons.IH[OF this] p show ?thesis by simp
  qed
qed

lemma matchSeq_tail:
  assumes "matchSeq (n # ns) s = Some (p # ps)"
  shows "matchSeq ns (drop (length p) s) = Some ps"
proof (cases n)
  case (Lit l)
  with assms show ?thesis by (auto split: if_splits)
next
  case (StarG c)
  with assms show ?thesis by (simp only: StarG_tail)
next
  case (StarL c)
  with assms show ?thesis by (simp only: StarL_tail)
next
  case (PlusG c)
  from assms[unfolded PlusG] show ?thesis
  proof (cases rule: matchSeq_PlusG_cases)
    case (1 x xs rs)
    from matchSeq_length[OF 1(3)] obtain p' qs where rs: "rs = p' # qs" by (cases rs) auto
    with 1 have p: "p = x # p'" "ps = qs" by auto
    with 1(3) rs have "matchSeq (StarG c # ns) xs = Some (p' # ps)" by simp
    from StarG_tail[OF this] p 1(1) show ?thesis by simp
  qed
qed

lemma matchSeq_tail_append:
  "matchSeq (ns1 @ ns2) s = Some (ps1 @ ps2) \<Longrightarrow> length ps1 = length ns1 \<Longrightarrow>
     matchSeq ns2 (drop (length (concat ps1)) s) = Some ps2"
proof (induction ns1 arbitrary: ps1 s)
  case Nil
  then show ?case by simp
next
  case (Cons n ns1)
  from Cons.prems(2) obtain p qs where ps1: "ps1 = p # qs" and l: "length qs = length ns1"
    by (cases ps1) auto
  with Cons.prems(1) have "matchSeq (n # ns1 @ ns2) s = Some (p # qs @ ps2)" by simp
  from matchSeq_tail[OF this] have "matchSeq (ns1 @ ns2) (drop (length p) s) = Some (qs @ ps2)" .
  from Cons.IH[OF this l] ps1 show ?case by (simp add: add.commute)
qed

lemma lazy_shortest:
  "matchSeq (StarL c # ns) s = Some (p # ps) \<Longrightarrow> k < length p \<Longrightarrow> matchSeq ns (drop k s) = None"
proof (induction s arbitrary: p k)
  case Nil
  from Nil.prems(1) show ?case
    by (cases rule: matchSeq_StarL_cases) (use Nil.prems(2) in auto)
next
  case (Cons y ys)
  from Cons.prems(1) show ?case
  proof (cases rule: matchSeq_StarL_cases)
    case (stop qs)
    with Cons.prems(2) show ?thesis by simp
  next
    case (step x xs rs)
    from matchSeq_length[OF step(4)] obtain p' qs where rs: "rs = p' # qs" by (cases rs) auto
    with step have p: "p = x # p'" "ps = qs" "xs = ys" by auto
    with step(4) rs have m: "matchSeq (StarL c # ns) ys = Some (p' # ps)" by simp
    show ?thesis
    proof (cases k)
      case 0
      with step show ?thesis by simp
    next
      case (Suc k')
      with Cons.prems(2) p have "k' < length p'" by simp
      from Cons.IH[OF m this] Suc show ?thesis by simp
    qed
  qed
qed

lemma StarG_only: "matchSeq [StarG c] s = Some [takeWhile c s]"
  by (induction s) auto

lemma PlusG_only: "matchSeq [PlusG c] s = Some [p] \<Longrightarrow> p = takeWhile c s \<and> p \<noteq> []"
  by (cases s) (auto simp del: matchSeq.simps(4) simp add: StarG_only split: if_splits)

lemma takeWhile_all:
  assumes "takeWhile P (xs @ ys) = xs"
  shows "ys = [] \<or> \<not> P (hd ys)"
proof (cases ys)
  case (Cons y zs)
  show ?thesis
  proof (rule ccontr)
    assume "\<not> (ys = [] \<or> \<not> P (hd ys))"
    with Cons have py: "P y" by simp
    have "\<forall>x\<in>set xs. P x" using assms by (metis set_takeWhileD)
    then have "takeWhile P (xs @ ys) = xs @ takeWhile P ys" by (simp add: takeWhile_append2)
    with assms Cons py show False by simp
  qed
qed simp

subsection \<open>The leftmost match\<close>

lemma search_Some:
  "search ns s i = Some (j, ps) \<Longrightarrow>
     \<exists>k. j = i + k \<and> k \<le> length s \<and> matchSeq ns (drop k s) = Some ps
       \<and> (\<forall>k'<k. matchSeq ns (drop k' s) = None)"
proof (induction s arbitrary: i)
  case Nil
  then show ?case by auto
next
  case (Cons x xs)
  show ?case
  proof (cases "matchSeq ns (x # xs)")
    case (Some qs)
    with Cons.prems have "j = i" "ps = qs" by auto
    with Some show ?thesis by (intro exI[of _ 0]) auto
  next
    case None
    with Cons.prems have "search ns xs (Suc i) = Some (j, ps)" by simp
    from Cons.IH[OF this] obtain k where k: "j = Suc i + k" "k \<le> length xs"
      "matchSeq ns (drop k xs) = Some ps" "\<forall>k'<k. matchSeq ns (drop k' xs) = None" by blast
    have "\<forall>k'<Suc k. matchSeq ns (drop k' (x # xs)) = None"
    proof (intro allI impI)
      fix k' assume "k' < Suc k"
      with k(4) None show "matchSeq ns (drop k' (x # xs)) = None" by (cases k') auto
    qed
    with k show ?thesis by (intro exI[of _ "Suc k"]) auto
  qed
qed

lemma search_None:
  "search ns s i = None \<Longrightarrow> k \<le> length s \<Longrightarrow> matchSeq ns (drop k s) = None"
proof (induction s arbitrary: i k)
  case Nil
  then show ?case by auto
next
  case (Cons x xs)
  from Cons.prems(1) have n: "matchSeq ns (x # xs) = None" and r: "search ns xs (Suc i) = None"
    by (auto split: option.splits)
  show ?case
  proof (cases k)
    case 0
    with n show ?thesis by simp
  next
    case (Suc k')
    with Cons.prems(2) Cons.IH[OF r, of k'] show ?thesis by simp
  qed
qed

lemma search_first:
  assumes "search ns html 0 = Some (i, ps)"
  shows "i \<le> length html" and "matchSeq ns (drop i html) = Some ps"
    and "list_all2 accepts ns ps"
    and "html = take i html @ concat ps @ drop (i + length (concat ps)) html"
    and "\<forall>j<i. \<not> matchesAt ns html j"
proof -
  from search_Some[OF assms] have i: "i \<le> length html"
    and m: "matchSeq ns (drop i html) = Some ps"
    and f: "\<forall>j<i. matchSeq ns (drop j html) = None" by auto
  from matchSeq_sound[OF m] have a: "list_all2 accepts ns ps"
    and "prefix (concat ps) (drop i html)" by auto
  then obtain r where r: "drop i html = concat ps @ r" by (auto simp: prefix_def)
  then have "drop (length (concat ps)) (drop i html) = r" by simp
  then have "drop (i + length (concat ps)) html = r" by (simp add: add.commute)
  with r have "take i html @ concat ps @ drop (i + length (concat ps)) html
      = take i html @ drop i html" by simp
  then have d: "html = take i html @ concat ps @ drop (i + length (concat ps)) html" by simp
  from f have "\<forall>j<i. \<not> matchesAt ns html j" by (simp add: matchesAt_iff)
  with i m a d show "i \<le> length html" "matchSeq ns (drop i html) = Some ps"
    "list_all2 accepts ns ps"
    "html = take i html @ concat ps @ drop (i + length (concat ps)) html"
    "\<forall>j<i. \<not> matchesAt ns html j" by blast+
qed

lemma search_finds:
  assumes "matchesAt ns html k"
  shows "\<exists>i ps. search ns html 0 = Some (i, ps) \<and> i \<le> k"
proof (cases "search ns html 0")
  case None
  from assms have "k \<le> length html" "matchSeq ns (drop k html) \<noteq> None"
    by (auto simp: matchesAt_iff)
  with search_None[OF None, of k] show ?thesis by simp
next
  case (Some r)
  obtain i ps where r: "r = (i, ps)" by (cases r)
  from search_first(5)[OF Some[unfolded r]] assms have "i \<le> k" by (meson not_less)
  with Some r show ?thesis by auto
qed

lemma search_none_iff: "search ns html 0 = None \<longleftrightarrow> (\<forall>i. \<not> matchesAt ns html i)"
proof
  assume "search ns html 0 = None"
  from search_None[OF this] show "\<forall>i. \<not> matchesAt ns html i" by (simp add: matchesAt_iff)
next
  assume a: "\<forall>i. \<not> matchesAt ns html i"
  show "search ns html 0 = None"
  proof (cases "search ns html 0")
    case (Some r)
    obtain i ps where "r = (i, ps)" by (cases r)
    with Some search_first(1,2)[of ns html i ps] a show ?thesis by (auto simp: matchesAt_iff)
  qed simp
qed

section \<open>Section replacement\<close>

lemmas pattern_defs = sectionRegex_def sectionOpen_def sectionOld_def sectionClose_def
  lastUpdatedRegex_def notQuote_def anyUnit_def isSpace_def notLt_def DQ_def LT_def NL_def asc_def

lemma sectionRegex_parts:
  assumes "list_all2 accepts (sectionRegex sectionId) ps"
  obtains ps1 old ps3 where "ps = ps1 @ [old] @ ps3" "length ps1 = 5" "length ps3 = 5"
    "list_all2 accepts (sectionOpen sectionId) ps1" "list_all2 accepts sectionClose ps3"
    "take 5 ps = ps1" "drop 6 ps = ps3"
proof -
  from assms obtain ps1 r where 1: "ps = ps1 @ r" "list_all2 accepts (sectionOpen sectionId) ps1"
    "list_all2 accepts (sectionOld @ sectionClose) r"
    unfolding sectionRegex_def by (auto simp: list_all2_append1)
  from 1(3) obtain old ps3 where 2: "r = old # ps3" "list_all2 accepts sectionClose ps3"
    unfolding sectionOld_def by (cases r) auto
  from 1(2) have l1: "length ps1 = 5" by (auto dest!: list_all2_lengthD simp: sectionOpen_def)
  from 2(2) have l3: "length ps3 = 5" by (auto dest!: list_all2_lengthD simp: sectionClose_def)
  from 1 2 l1 l3 show ?thesis by (intro that[of ps1 old ps3]) auto
qed

lemma sectionRegex_shape:
  assumes "list_all2 accepts (sectionRegex sectionId) ps"
  obtains cls inner old w1 w2 where
    \<open>ps = [asc ''<div id="'' @ sectionId @ asc ''" class="section'', cls, asc ''">'', inner,
           asc ''<div class="card-grid">'', old, asc ''</div>'', w1, asc ''</div>'', w2,
           asc ''</div>'']\<close>
    "list_all notQuote cls" "list_all isSpace w1" "list_all isSpace w2"
proof -
  from assms have l: "length ps = 11"
    by (auto dest!: list_all2_lengthD simp: sectionRegex_def sectionOpen_def sectionOld_def
        sectionClose_def)
  then obtain p0 p1 p2 p3 p4 p5 p6 p7 p8 p9 p10 where
    ps: "ps = [p0, p1, p2, p3, p4, p5, p6, p7, p8, p9, p10]"
    by (auto simp: length_Suc_conv eval_nat_numeral)
  from assms ps show ?thesis
    by (intro that[of p1 p3 p5 p7 p9])
       (auto simp: sectionRegex_def sectionOpen_def sectionOld_def sectionClose_def)
qed

lemma drop_drop_add: "drop n (drop a (drop i html)) = drop (i + a + n) html"
  by (simp add: add.commute add.left_commute)

lemma section_shortest:
  assumes m: "matchSeq (sectionRegex sectionId) (drop i html) = Some ps"
    and il: "i \<le> length html"
  shows \<open>\<forall>n<length (ps ! 3).
            \<not> matchesAt (Lit (asc ''<div class="card-grid">'') # sectionOld @ sectionClose) html
                (i + length (concat (take 3 ps)) + n)\<close>
    and "\<forall>n<length (ps ! 5).
            \<not> matchesAt sectionClose html (i + length (concat (take 5 ps)) + n)"
proof -
  from matchSeq_sound[OF m] have acc: "list_all2 accepts (sectionRegex sectionId) ps" by simp
  then have l: "length ps = 11"
    by (auto dest!: list_all2_lengthD simp: sectionRegex_def sectionOpen_def sectionOld_def
        sectionClose_def)
  have "ps = take 3 ps @ ps ! 3 # drop (Suc 3) ps" by (rule id_take_nth_drop) (simp add: l)
  then have ps3: "ps = take 3 ps @ (ps ! 3 # drop 4 ps)" by simp
  have "ps = take 5 ps @ ps ! 5 # drop (Suc 5) ps" by (rule id_take_nth_drop) (simp add: l)
  then have ps5: "ps = take 5 ps @ (ps ! 5 # drop 6 ps)" by simp
  have r3: \<open>sectionRegex sectionId =
      [Lit (asc ''<div id="'' @ sectionId @ asc ''" class="section''), StarG notQuote, Lit (asc ''">'')]
      @ (StarL anyUnit # Lit (asc ''<div class="card-grid">'') # sectionOld @ sectionClose)\<close>
    and r5: "sectionRegex sectionId = sectionOpen sectionId @ (StarL anyUnit # sectionClose)"
    by (simp_all add: sectionRegex_def sectionOpen_def sectionOld_def)
  from m ps3 have \<open>matchSeq ([Lit (asc ''<div id="'' @ sectionId @ asc ''" class="section''), StarG notQuote, Lit (asc ''">'')]
      @ (StarL anyUnit # Lit (asc ''<div class="card-grid">'') # sectionOld @ sectionClose)) (drop i html)
      = Some (take 3 ps @ (ps ! 3 # drop 4 ps))\<close>
    unfolding r3[symmetric] by simp
  from matchSeq_tail_append[OF this] l
  have t3: \<open>matchSeq (StarL anyUnit # Lit (asc ''<div class="card-grid">'') # sectionOld @ sectionClose)
      (drop (length (concat (take 3 ps))) (drop i html)) = Some (ps ! 3 # drop 4 ps)\<close>
    by simp
  show \<open>\<forall>n<length (ps ! 3).
            \<not> matchesAt (Lit (asc ''<div class="card-grid">'') # sectionOld @ sectionClose) html
                (i + length (concat (take 3 ps)) + n)\<close>
  proof (intro allI impI)
    fix n assume "n < length (ps ! 3)"
    from lazy_shortest[OF t3 this]
    have \<open>matchSeq (Lit (asc ''<div class="card-grid">'') # sectionOld @ sectionClose)
        (drop (i + length (concat (take 3 ps)) + n) html) = None\<close>
      unfolding drop_drop_add .
    then show \<open>\<not> matchesAt (Lit (asc ''<div class="card-grid">'') # sectionOld @ sectionClose) html
                (i + length (concat (take 3 ps)) + n)\<close>
      unfolding matchesAt_iff by blast
  qed
  from m ps5 have "matchSeq (sectionOpen sectionId @ (StarL anyUnit # sectionClose)) (drop i html)
      = Some (take 5 ps @ (ps ! 5 # drop 6 ps))"
    unfolding r5[symmetric] by simp
  from matchSeq_tail_append[OF this] l
  have t5: "matchSeq (StarL anyUnit # sectionClose)
      (drop (length (concat (take 5 ps))) (drop i html)) = Some (ps ! 5 # drop 6 ps)"
    by (simp add: sectionOpen_def)
  show "\<forall>n<length (ps ! 5).
            \<not> matchesAt sectionClose html (i + length (concat (take 5 ps)) + n)"
  proof (intro allI impI)
    fix n assume "n < length (ps ! 5)"
    from lazy_shortest[OF t5 this]
    have "matchSeq sectionClose (drop (i + length (concat (take 5 ps)) + n) html) = None"
      unfolding drop_drop_add .
    then show "\<not> matchesAt sectionClose html (i + length (concat (take 5 ps)) + n)"
      unfolding matchesAt_iff by blast
  qed
qed

lemma replaceSection_Some:
  assumes "search (sectionRegex sectionId) html 0 = Some (i, ps)"
  shows "replaceSection html sectionId newCards =
           take i html @ (concat (take 5 ps) @ [NL] @ newCards @ asc ''\<newline>            ''
             @ concat (drop 6 ps)) @ drop (i + length (concat ps)) html"
  using assms by (simp add: replaceSection_def)

subsection \<open>The model on sample documents\<close>

lemma replaceSection_sampleDoc:
  \<open>replaceSection sampleDoc (asc ''us'') (asc ''NEW'')
     = asc ''<div id="us" class="section"><div class="card-grid">\<newline>NEW\<newline>            </div></div></div>''\<close>
  by (simp add: replaceSection_def sampleDoc_def pattern_defs)

lemma replaceSection_other_section_kept:
  \<open>replaceSection (asc ''<div id="china" class="section"><div class="card-grid">c</div></div></div><div id="us" class="section active"><h2>US</h2><div class="card-grid">u</div>\<newline></div> </div>'')
       (asc ''us'') (asc ''NEW'')
     = asc ''<div id="china" class="section"><div class="card-grid">c</div></div></div><div id="us" class="section active"><h2>US</h2><div class="card-grid">\<newline>NEW\<newline>            </div>\<newline></div> </div>''\<close>
  by (simp add: replaceSection_def pattern_defs)

lemma replaceSection_twice_small:
  \<open>replaceSection (replaceSection sampleDoc (asc ''us'') (asc ''<b></div> </div> </div>''))
       (asc ''us'') (asc ''<b></div> </div> </div>'')
     = asc ''<div id="us" class="section"><div class="card-grid">\<newline><b></div> </div> </div>\<newline>            </div> </div> </div>\<newline>            </div></div></div>''\<close>
  by (simp add: replaceSection_def sampleDoc_def pattern_defs)

lemma plainId_us: "plainId (asc ''us'')"
  by (simp add: plainId_def asc_def)

lemma twoSections_second_match: "matchesAt (sectionRegex (asc ''us'')) twoSections 71"
  unfolding matchesAt_iff by (simp add: twoSections_def pattern_defs)

lemma replaceSection_twoSections:
  \<open>replaceSection twoSections (asc ''us'') (asc ''NEW'')
     = asc ''<div id="us" class="section"><div class="card-grid">\<newline>NEW\<newline>            </div></div></div><div id="us" class="section"><div class="card-grid">B</div></div></div>''\<close>
  by (simp add: replaceSection_def twoSections_def pattern_defs)

lemma sampleDoc_matches: "matchesAt (sectionRegex (asc ''us'')) sampleDoc 0"
  unfolding matchesAt_iff by (simp add: sampleDoc_def pattern_defs)

subsection \<open>No match, one match\<close>

text \<open>
  Claim C2. For a section id without metacharacters, when the section pattern matches
  nowhere in the document, \<open>replaceSection\<close> returns the document itself. For such an id
  the pattern compiles, and nothing else in the function can fail: its value is a document.
\<close>
theorem replaceSection_no_match_unchanged:
  assumes "plainId sectionId" and "\<forall>i. \<not> matchesAt (sectionRegex sectionId) html i"
  shows "replaceSection html sectionId newCards = html"
proof -
  from assms(2) have "search (sectionRegex sectionId) html 0 = None"
    by (simp add: search_none_iff)
  then show ?thesis by (simp add: replaceSection_def)
qed

theorem replaceSection_no_match_unchanged_witness:
  \<open>plainId (asc ''us'')
   \<and> (\<forall>i. \<not> matchesAt (sectionRegex (asc ''us'')) (asc ''<p>hello</p>'') i)
   \<and> replaceSection (asc ''<p>hello</p>'') (asc ''us'') (asc ''NEW'') = asc ''<p>hello</p>''\<close>
proof -
  have "search (sectionRegex (asc ''us'')) (asc ''<p>hello</p>'') 0 = None"
    by (simp add: pattern_defs)
  then have h: "\<forall>i. \<not> matchesAt (sectionRegex (asc ''us'')) (asc ''<p>hello</p>'') i"
    by (simp add: search_none_iff)
  from plainId_us h replaceSection_no_match_unchanged[OF plainId_us h, of "asc ''NEW''"]
  show ?thesis by blast
qed

text \<open>
  Claim C9. For a section id without metacharacters, when the section pattern matches
  somewhere, \<open>replaceSection\<close> rewrites one region only, the match with the lowest start
  index: no match starts in \<open>pre\<close>. The match is the opening tag of the section up to the
  first card-grid tag after which the rest of the pattern matches, then the shortest text
  \<open>old\<close> after which three closing tags follow, then those tags with the white space
  between them. \<open>pre\<close> and \<open>post\<close>, the text before and after the match, are kept, a
  later match in \<open>post\<close> included; the match is replaced by its first group, a line feed,
  the cards, the padding and its third group.
\<close>
theorem replaceSection_first_match_only:
  assumes "plainId sectionId" and "matchesAt (sectionRegex sectionId) html k"
  shows \<open>\<exists>pre head inner grid old close post.
      html = pre @ (head @ inner @ grid) @ old @ close @ post
    \<and> length pre \<le> k \<and> (\<forall>j<length pre. \<not> matchesAt (sectionRegex sectionId) html j)
    \<and> (\<exists>cls. head = asc ''<div id="'' @ sectionId @ asc ''" class="section'' @ cls @ asc ''">''
           \<and> DQ \<notin> set cls)
    \<and> grid = asc ''<div class="card-grid">''
    \<and> (\<forall>n<length inner. \<not> matchesAt (Lit grid # sectionOld @ sectionClose) html
           (length pre + length head + n))
    \<and> (\<forall>n<length old. \<not> matchesAt sectionClose html
           (length pre + length (head @ inner @ grid) + n))
    \<and> (\<exists>w1 w2. close = asc ''</div>'' @ w1 @ asc ''</div>'' @ w2 @ asc ''</div>''
           \<and> list_all isSpace w1 \<and> list_all isSpace w2)
    \<and> replaceSection html sectionId newCards =
        pre @ (head @ inner @ grid) @ [NL] @ newCards @ asc ''\<newline>            '' @ close
        @ post\<close>
proof -
  from search_finds[OF assms(2)] obtain i ps where
    s: "search (sectionRegex sectionId) html 0 = Some (i, ps)" and ik: "i \<le> k" by blast
  note f = search_first[OF s]
  from f(3) obtain cls inner old w1 w2 where
    ps: \<open>ps = [asc ''<div id="'' @ sectionId @ asc ''" class="section'', cls, asc ''">'', inner,
           asc ''<div class="card-grid">'', old, asc ''</div>'', w1, asc ''</div>'', w2,
           asc ''</div>'']\<close>
    and c: "list_all notQuote cls" and w: "list_all isSpace w1" "list_all isSpace w2"
    by (rule sectionRegex_shape)
  define pre where "pre = take i html"
  define head where \<open>head = asc ''<div id="'' @ sectionId @ asc ''" class="section'' @ cls @ asc ''">''\<close>
  define grid where \<open>grid = asc ''<div class="card-grid">''\<close>
  define close where \<open>close = asc ''</div>'' @ w1 @ asc ''</div>'' @ w2 @ asc ''</div>''\<close>
  define post where "post = drop (i + length (concat ps)) html"
  from f(1) have lp: "length pre = i" by (simp add: pre_def)
  have t3: "concat (take 3 ps) = head" and t5: "concat (take 5 ps) = head @ inner @ grid"
    and d6: "concat (drop 6 ps) = close" and c0: "concat ps = (head @ inner @ grid) @ old @ close"
    and n3: "ps ! 3 = inner" and n5: "ps ! 5 = old"
    by (simp_all add: ps head_def grid_def close_def)
  from f(4) have h: "html = pre @ (head @ inner @ grid) @ old @ close @ post"
    by (simp add: pre_def post_def c0)
  from f(5) lp have lm: "\<forall>j<length pre. \<not> matchesAt (sectionRegex sectionId) html j" by simp
  from c have cq: "DQ \<notin> set cls" by (auto simp: list_all_iff notQuote_def)
  from section_shortest[OF f(2) f(1)]
  have s3: "\<forall>n<length inner. \<not> matchesAt (Lit grid # sectionOld @ sectionClose) html
           (length pre + length head + n)"
    and s5: "\<forall>n<length old. \<not> matchesAt sectionClose html
           (length pre + length (head @ inner @ grid) + n)"
    unfolding t3 t5 n3 n5 lp grid_def by blast+
  from replaceSection_Some[OF s, of newCards]
  have r: \<open>replaceSection html sectionId newCards =
        pre @ (head @ inner @ grid) @ [NL] @ newCards @ asc ''\<newline>            '' @ close
        @ post\<close>
    unfolding t5 d6 pre_def post_def by simp
  from ik lp have lk: "length pre \<le> k" by simp
  have hd: \<open>\<exists>cls. head = asc ''<div id="'' @ sectionId @ asc ''" class="section'' @ cls @ asc ''">''
           \<and> DQ \<notin> set cls\<close>
    using cq head_def by blast
  have cl: \<open>\<exists>w1 w2. close = asc ''</div>'' @ w1 @ asc ''</div>'' @ w2 @ asc ''</div>''
           \<and> list_all isSpace w1 \<and> list_all isSpace w2\<close>
    using w close_def by blast
  from h lk lm hd grid_def s3 s5 cl r show ?thesis by blast
qed

theorem replaceSection_first_match_only_witness:
  \<open>plainId (asc ''us'') \<and> matchesAt (sectionRegex (asc ''us'')) twoSections 71
   \<and> (\<exists>pre head inner grid old close post.
      twoSections = pre @ (head @ inner @ grid) @ old @ close @ post
    \<and> length pre \<le> 71 \<and> (\<forall>j<length pre. \<not> matchesAt (sectionRegex (asc ''us'')) twoSections j)
    \<and> (\<exists>cls. head = asc ''<div id="'' @ asc ''us'' @ asc ''" class="section'' @ cls @ asc ''">''
           \<and> DQ \<notin> set cls)
    \<and> grid = asc ''<div class="card-grid">''
    \<and> (\<forall>n<length inner. \<not> matchesAt (Lit grid # sectionOld @ sectionClose) twoSections
           (length pre + length head + n))
    \<and> (\<forall>n<length old. \<not> matchesAt sectionClose twoSections
           (length pre + length (head @ inner @ grid) + n))
    \<and> (\<exists>w1 w2. close = asc ''</div>'' @ w1 @ asc ''</div>'' @ w2 @ asc ''</div>''
           \<and> list_all isSpace w1 \<and> list_all isSpace w2)
    \<and> replaceSection twoSections (asc ''us'') (asc ''NEW'') =
        pre @ (head @ inner @ grid) @ [NL] @ asc ''NEW'' @ asc ''\<newline>            '' @ close
        @ post)
   \<and> replaceSection twoSections (asc ''us'') (asc ''NEW'')
     = asc ''<div id="us" class="section"><div class="card-grid">\<newline>NEW\<newline>            </div></div></div><div id="us" class="section"><div class="card-grid">B</div></div></div>''\<close>
  using plainId_us twoSections_second_match replaceSection_twoSections
    replaceSection_first_match_only[OF plainId_us twoSections_second_match, of "asc ''NEW''"]
  by blast

subsection \<open>A second run\<close>

lemma joinWith_Cons: "\<exists>r. joinWith sep (x # xs) = x @ r"
  by (cases xs) auto

lemma card_ends_with_close:
  "\<exists>u tp. card ld em a = u @ concat tp \<and> list_all2 accepts sectionClose tp"
proof -
  let ?tp = "[asc ''</div>'', asc ''\<newline>                    '', asc ''</div>'',
              asc ''\<newline>                '', asc ''</div>'']"
  have e: \<open>asc ''" class="read-more" target="_blank">Read More</a>\<newline>                        </div>\<newline>                    </div>\<newline>                </div>''
      = asc ''" class="read-more" target="_blank">Read More</a>\<newline>                        '' @ concat ?tp\<close>
    by (simp add: asc_def)
  have a: "list_all2 accepts sectionClose ?tp"
    by (simp add: sectionClose_def asc_def isSpace_def)
  show ?thesis
    unfolding card_def e
    by (rule exI, rule exI[of _ ?tp], rule conjI[OF _ a]) (simp only: append_assoc[symmetric])
qed

lemma buildCards_contains_close:
  assumes "arts \<noteq> []"
  shows "\<exists>u tp v. buildCards ld arts e = u @ concat tp @ v \<and> list_all2 accepts sectionClose tp"
proof -
  from assms obtain a as where as: "arts = a # as" by (cases arts) auto
  let ?em = "case e of None \<Rightarrow> defaultEmoji | Some x \<Rightarrow> x"
  from joinWith_Cons[of "[NL]" "card ld ?em a" "map (card ld ?em) as"] obtain r where
    r: "buildCards ld arts e = card ld ?em a @ r" by (auto simp: buildCards_def as)
  from card_ends_with_close[of ld ?em a] obtain u tp where
    "card ld ?em a = u @ concat tp" "list_all2 accepts sectionClose tp" by blast
  with r show ?thesis by auto
qed

text \<open>
  Claim C1 fails on the cards \<open>buildCards\<close> renders. Every card ends with three closing
  \<open>div\<close> tags separated by white space, which is what the third group of the pattern
  matches; in a document that already holds such cards the lazy second group stops at the
  end of the first card. For every document in which the pattern matches and every non-empty
  list of articles, a second run with the same cards changes the document again.
\<close>
theorem replaceSection_not_idempotent:
  assumes m: "matchesAt (sectionRegex sectionId) html k" and ne: "arts \<noteq> []"
  shows "replaceSection (replaceSection html sectionId (buildCards ld arts e)) sectionId
           (buildCards ld arts e)
         \<noteq> replaceSection html sectionId (buildCards ld arts e)"
proof
  let ?R = "sectionRegex sectionId"
  let ?cards = "buildCards ld arts e"
  let ?pad = "asc ''\<newline>            ''"
  let ?doc1 = "replaceSection html sectionId ?cards"
  assume idem: "replaceSection ?doc1 sectionId ?cards = ?doc1"
  \<comment> \<open>the first run\<close>
  from search_finds[OF m] obtain i ps where
    s: "search ?R html 0 = Some (i, ps)" by blast
  from search_first(3)[OF s] obtain ps1 old ps3 where
    ps: "list_all2 accepts (sectionOpen sectionId) ps1" "list_all2 accepts sectionClose ps3"
      "take 5 ps = ps1" "drop 6 ps = ps3"
    by (rule sectionRegex_parts)
  from search_first(1)[OF s] have li: "min (length html) i = i" by simp
  have doc1: "?doc1 = take i html @ concat (ps1 @ [[NL] @ ?cards @ ?pad] @ ps3)
                @ drop (i + length (concat ps)) html"
    using replaceSection_Some[OF s, of ?cards] ps(3,4) by simp
  \<comment> \<open>the pattern occurs in the result\<close>
  have "list_all2 accepts ?R (ps1 @ [[NL] @ ?cards @ ?pad] @ ps3)"
    unfolding sectionRegex_def sectionOld_def
    using ps(1,2) by (intro list_all2_appendI) (auto simp: list_all_iff anyUnit_def)
  moreover have "drop i ?doc1 = concat (ps1 @ [[NL] @ ?cards @ ?pad] @ ps3)
                   @ drop (i + length (concat ps)) html"
    by (subst doc1) (simp add: li)
  then have "prefix (concat (ps1 @ [[NL] @ ?cards @ ?pad] @ ps3)) (drop i ?doc1)" by simp
  moreover have "i \<le> length ?doc1" by (subst doc1) (simp add: li)
  ultimately have "matchesAt ?R ?doc1 i" unfolding matchesAt_def by blast
  \<comment> \<open>the second run\<close>
  from search_finds[OF this] obtain i' ps' where
    s': "search ?R ?doc1 0 = Some (i', ps')" by blast
  from search_first(3)[OF s'] obtain qs1 old' qs3 where
    qs: "ps' = qs1 @ [old'] @ qs3" "length qs1 = 5" "take 5 ps' = qs1" "drop 6 ps' = qs3"
    by (rule sectionRegex_parts)
  define post where "post = drop (i' + length (concat ps')) ?doc1"
  from search_first(4)[OF s'] qs(1)
  have d1: "?doc1 = (take i' ?doc1 @ concat qs1) @ old' @ concat qs3 @ post"
    by (simp add: post_def)
  from replaceSection_Some[OF s', of ?cards] qs(3,4)
  have d2: "replaceSection ?doc1 sectionId ?cards
      = (take i' ?doc1 @ concat qs1) @ ([NL] @ ?cards @ ?pad) @ concat qs3 @ post"
    by (simp add: post_def)
  from idem d2 have "?doc1 = (take i' ?doc1 @ concat qs1) @ ([NL] @ ?cards @ ?pad) @ concat qs3 @ post"
    by simp
  with d1 have "(take i' ?doc1 @ concat qs1) @ old' @ concat qs3 @ post
     = (take i' ?doc1 @ concat qs1) @ ([NL] @ ?cards @ ?pad) @ concat qs3 @ post" by simp
  then have "old' @ (concat qs3 @ post) = ([NL] @ ?cards @ ?pad) @ (concat qs3 @ post)"
    by (simp only: same_append_eq append_assoc)
  then have old': "old' = [NL] @ ?cards @ ?pad" by (simp only: append_same_eq)
  \<comment> \<open>the lazy group stops at the first closing run, which the cards contain\<close>
  from search_first(1)[OF s'] have li': "length (take i' ?doc1) = i'" by simp
  from d1 li' have dr: "drop i' ?doc1 = concat qs1 @ old' @ concat qs3 @ post"
    by (metis append_assoc append_eq_conv_conj)
  from search_first(2)[OF s'] qs(1)
  have "matchSeq (sectionOpen sectionId @ (sectionOld @ sectionClose)) (drop i' ?doc1)
          = Some (qs1 @ ([old'] @ qs3))"
    by (simp add: sectionRegex_def)
  from matchSeq_tail_append[OF this] qs(2)
  have "matchSeq (sectionOld @ sectionClose) (drop (length (concat qs1)) (drop i' ?doc1))
          = Some ([old'] @ qs3)"
    by (simp add: sectionOpen_def)
  with dr have lz: "matchSeq (StarL anyUnit # sectionClose) (old' @ concat qs3 @ post)
          = Some (old' # qs3)"
    by (simp add: sectionOld_def)
  from buildCards_contains_close[OF ne, of ld e] obtain u tp v where
    c: "?cards = u @ concat tp @ v" "list_all2 accepts sectionClose tp" by blast
  have k0: "Suc (length u) < length old'" by (subst old', subst c(1)) (simp add: asc_def)
  have "drop (Suc (length u)) (old' @ concat qs3 @ post)
      = concat tp @ (v @ ?pad @ concat qs3 @ post)"
    by (subst old', subst c(1)) simp
  with lazy_shortest[OF lz k0]
  have "matchSeq sectionClose (concat tp @ (v @ ?pad @ concat qs3 @ post)) = None" by simp
  with matchSeq_complete[OF c(2), of "concat tp @ (v @ ?pad @ concat qs3 @ post)"]
  show False by simp
qed

theorem replaceSection_not_idempotent_witness:
  \<open>matchesAt (sectionRegex (asc ''us'')) sampleDoc 0 \<and> [sampleArticle] \<noteq> []
   \<and> replaceSection (replaceSection sampleDoc (asc ''us'')
          (buildCards (\<lambda>d. asc ''November 2, 2026'') [sampleArticle] None))
        (asc ''us'') (buildCards (\<lambda>d. asc ''November 2, 2026'') [sampleArticle] None)
      \<noteq> replaceSection sampleDoc (asc ''us'')
          (buildCards (\<lambda>d. asc ''November 2, 2026'') [sampleArticle] None)\<close>
  using sampleDoc_matches
    replaceSection_not_idempotent[OF sampleDoc_matches, of "[sampleArticle]"
      "\<lambda>d. asc ''November 2, 2026''" None]
  by blast

section \<open>The timestamp\<close>

lemma lastUpdated_parts:
  assumes "list_all2 accepts lastUpdatedRegex ps"
  obtains run where "ps = [asc ''Last Updated: '', run]" "run \<noteq> []" "list_all notLt run"
  using assms unfolding lastUpdatedRegex_def
  by (cases ps; cases "tl ps") (auto simp: list_all2_Cons1)

lemma updateLastModified_Some:
  assumes s: "search lastUpdatedRegex html 0 = Some (i, ps)"
  shows "\<exists>pre run post. html = pre @ asc ''Last Updated: '' @ run @ post \<and> length pre = i
          \<and> run \<noteq> [] \<and> LT \<notin> set run \<and> (post = [] \<or> hd post = LT)
          \<and> (\<forall>j<length pre. \<not> matchesAt lastUpdatedRegex html j)
          \<and> updateLastModified dateStr html = pre @ asc ''Last Updated: '' @ dateStr @ post"
proof -
  let ?l = "asc ''Last Updated: ''"
  from search_first(3)[OF s] obtain run where
    ps: "ps = [?l, run]" and run: "run \<noteq> []" "list_all notLt run"
    by (rule lastUpdated_parts)
  define post where "post = drop (i + length (concat ps)) html"
  from search_first(1)[OF s] have li: "length (take i html) = i" by simp
  from search_first(4)[OF s] ps have d: "html = take i html @ ?l @ run @ post"
    by (simp add: post_def)
  then have dr: "drop i html = ?l @ run @ post" using li by (metis append_eq_conv_conj)
  from search_first(2)[OF s] ps
  have "matchSeq (Lit ?l # [PlusG notLt]) (drop i html) = Some (?l # [run])"
    by (simp add: lastUpdatedRegex_def)
  from matchSeq_tail[OF this] dr have "matchSeq [PlusG notLt] (run @ post) = Some [run]" by simp
  from PlusG_only[OF this] have "takeWhile notLt (run @ post) = run" by simp
  from takeWhile_all[OF this] have p: "post = [] \<or> hd post = LT" by (simp add: notLt_def)
  from run(2) have r: "LT \<notin> set run" by (auto simp: list_all_iff notLt_def)
  from search_first(5)[OF s] li
  have f: "\<forall>j<length (take i html). \<not> matchesAt lastUpdatedRegex html j" by simp
  from s have u: "updateLastModified dateStr html = take i html @ ?l @ dateStr @ post"
    by (simp add: updateLastModified_def post_def)
  from d li run(1) r p f u show ?thesis by blast
qed

lemma updateLastModified_sample:
  \<open>updateLastModified (asc ''November 2, 2026'')
       (asc ''<p>Last Updated: January 1, 2020</p><p>Last Updated: x</p>'')
     = asc ''<p>Last Updated: November 2, 2026</p><p>Last Updated: x</p>''\<close>
  by (simp add: updateLastModified_def pattern_defs)

text \<open>
  Claim C7. In a document that contains \<open>Last Updated: January 1, 2020\<close>,
  \<open>updateLastModified\<close> replaces the leftmost label that is followed by a non-empty run of
  units other than \<open><\<close>, together with that run (which ends at the next \<open><\<close> or at the end
  of the document), by the label and the date string; the text before and after is kept. A
  document without the label is returned as it is.
\<close>
theorem updateLastModified_first_run_replaced:
  \<open>(sublist (asc ''Last Updated: January 1, 2020'') html \<longrightarrow>
      (\<exists>pre run post. html = pre @ asc ''Last Updated: '' @ run @ post
         \<and> run \<noteq> [] \<and> LT \<notin> set run \<and> (post = [] \<or> hd post = LT)
         \<and> (\<forall>j<length pre. \<not> matchesAt lastUpdatedRegex html j)
         \<and> updateLastModified dateStr html = pre @ asc ''Last Updated: '' @ dateStr @ post))
   \<and> (\<not> sublist (asc ''Last Updated: '') html \<longrightarrow> updateLastModified dateStr html = html)\<close>
proof (intro conjI impI)
  let ?l = "asc ''Last Updated: ''"
  assume "sublist (asc ''Last Updated: January 1, 2020'') html"
  then obtain u v where h: "html = u @ asc ''Last Updated: January 1, 2020'' @ v"
    by (auto simp: sublist_def)
  have e: "asc ''Last Updated: January 1, 2020'' = ?l @ asc ''J'' @ asc ''anuary 1, 2020''"
    by (simp add: asc_def)
  have "list_all2 accepts lastUpdatedRegex [?l, asc ''J'']"
    by (simp add: lastUpdatedRegex_def asc_def notLt_def LT_def)
  moreover have "prefix (concat [?l, asc ''J'']) (drop (length u) html)"
    by (subst h, subst e) simp
  moreover have "length u \<le> length html" by (subst h) simp
  ultimately have "matchesAt lastUpdatedRegex html (length u)" unfolding matchesAt_def by blast
  from search_finds[OF this] obtain i ps where "search lastUpdatedRegex html 0 = Some (i, ps)"
    by blast
  from updateLastModified_Some[OF this, of dateStr]
  show "\<exists>pre run post. html = pre @ ?l @ run @ post
         \<and> run \<noteq> [] \<and> LT \<notin> set run \<and> (post = [] \<or> hd post = LT)
         \<and> (\<forall>j<length pre. \<not> matchesAt lastUpdatedRegex html j)
         \<and> updateLastModified dateStr html = pre @ ?l @ dateStr @ post" by blast
next
  let ?l = "asc ''Last Updated: ''"
  assume n: "\<not> sublist ?l html"
  show "updateLastModified dateStr html = html"
  proof (cases "search lastUpdatedRegex html 0")
    case None
    then show ?thesis by (simp add: updateLastModified_def)
  next
    case (Some r)
    obtain i ps where "r = (i, ps)" by (cases r)
    with Some updateLastModified_Some[of html i ps dateStr] obtain pre run post where
      "html = pre @ ?l @ run @ post" by blast
    then have "sublist ?l html" unfolding sublist_def by blast
    with n show ?thesis by simp
  qed
qed

theorem updateLastModified_first_run_replaced_witness:
  \<open>sublist (asc ''Last Updated: January 1, 2020'') (asc ''<p>Last Updated: January 1, 2020</p>'')
   \<and> \<not> sublist (asc ''Last Updated: '') (asc ''<p>hello</p>'')
   \<and> (\<exists>pre run post. asc ''<p>Last Updated: January 1, 2020</p>'' = pre @ asc ''Last Updated: '' @ run @ post
         \<and> run \<noteq> [] \<and> LT \<notin> set run \<and> (post = [] \<or> hd post = LT)
         \<and> (\<forall>j<length pre. \<not> matchesAt lastUpdatedRegex (asc ''<p>Last Updated: January 1, 2020</p>'') j)
         \<and> updateLastModified (asc ''November 2, 2026'') (asc ''<p>Last Updated: January 1, 2020</p>'')
             = pre @ asc ''Last Updated: '' @ asc ''November 2, 2026'' @ post)
   \<and> updateLastModified (asc ''November 2, 2026'') (asc ''<p>hello</p>'') = asc ''<p>hello</p>''\<close>
proof -
  have a: "sublist (asc ''Last Updated: January 1, 2020'') (asc ''<p>Last Updated: January 1, 2020</p>'')"
    unfolding sublist_def
    by (rule exI[of _ "asc ''<p>''"], rule exI[of _ "asc ''</p>''"]) (simp add: asc_def)
  have b: "\<not> sublist (asc ''Last Updated: '') (asc ''<p>hello</p>'')"
  proof
    assume "sublist (asc ''Last Updated: '') (asc ''<p>hello</p>'')"
    then have "set (asc ''Last Updated: '') \<subseteq> set (asc ''<p>hello</p>'')"
      by (rule set_mono_sublist)
    then show False by (simp add: asc_def)
  qed
  from a b
    updateLastModified_first_run_replaced[of "asc ''<p>Last Updated: January 1, 2020</p>''" "asc ''November 2, 2026''"]
    updateLastModified_first_run_replaced[of "asc ''<p>hello</p>''" "asc ''November 2, 2026''"]
  show ?thesis by blast
qed

section \<open>Card rendering\<close>

lemma length_escapeQuotes:
  "length (escapeQuotes s) = length s + 5 * length (filter (\<lambda>c. c = DQ) s)"
  by (induction s) (auto simp: escapeQuotes_def asc_def)

lemma escapeQuotes_no_quote: "DQ \<notin> set (escapeQuotes s)"
  by (induction s) (auto simp: escapeQuotes_def asc_def DQ_def)

lemma escapeQuotes_plain: "DQ \<notin> set s \<Longrightarrow> escapeQuotes s = s"
  by (induction s) (auto simp: escapeQuotes_def)


lemma joinWith_mem:
  "x \<in> set xs \<Longrightarrow> \<exists>p r. joinWith sep xs = p @ x @ r"
proof (induction sep xs rule: joinWith.induct)
  case (1 sep)
  then show ?case by simp
next
  case (2 sep y)
  then have "joinWith sep [y] = [] @ x @ []" by simp
  then show ?case by blast
next
  case (3 sep y z zs)
  show ?case
  proof (cases "x = y")
    case True
    then have "joinWith sep (y # z # zs) = [] @ x @ (sep @ joinWith sep (z # zs))" by simp
    then show ?thesis by blast
  next
    case False
    with "3.prems" have "x \<in> set (z # zs)" by simp
    from "3.IH"[OF this] obtain p r where "joinWith sep (z # zs) = p @ x @ r" by blast
    then have "joinWith sep (y # z # zs) = (y @ sep @ p) @ x @ r" by simp
    then show ?thesis by blast
  qed
qed

text \<open>
  The fragment holds the card of every article of the list, and the title and description
  fields of a card are the escaped text cut to 80 and to 200 units.
\<close>

lemma buildCards_card:
  assumes "a \<in> set arts"
  shows "\<exists>p r. buildCards ld arts e
           = p @ card ld (case e of None \<Rightarrow> defaultEmoji | Some x \<Rightarrow> x) a @ r"
proof -
  let ?em = "case e of None \<Rightarrow> defaultEmoji | Some x \<Rightarrow> x"
  from assms have ne: "arts \<noteq> []" by auto
  from assms have "card ld ?em a \<in> set (map (card ld ?em) arts)" by simp
  from joinWith_mem[OF this, of "[NL]"] ne show ?thesis by (auto simp: buildCards_def)
qed

lemma cardTitle_Some:
  "title a = Some t \<Longrightarrow> cardTitle a = take 80 (concat (map (\<lambda>c. if c = DQ then asc ''&quot;'' else [c]) t))"
  by (cases t) (simp_all add: cardTitle_def slice0_def escapeQuotes_def)


lemma escaped_no_quote: "DQ \<notin> set (take n (concat (map (\<lambda>c. if c = DQ then asc ''&quot;'' else [c]) s)))"
  using escapeQuotes_no_quote[of s] unfolding escapeQuotes_def by (meson in_set_takeD)

lemma escaped_length: "length s \<le> length (concat (map (\<lambda>c. if c = DQ then asc ''&quot;'' else [c]) s))"
  using length_escapeQuotes[of s] unfolding escapeQuotes_def by simp

subsection \<open>The sample article with quotes\<close>

lemma quoted_title_field:
  "cardTitle quotedArticle = asc ''&quot;'' @ replicate 74 0x61"
proof -
  have "escapeQuotes (replicate 80 (0x61 :: unit16)) = replicate 80 0x61"
    by (rule escapeQuotes_plain) (simp add: DQ_def)
  then have "escapeQuotes longQuotedTitle = asc ''&quot;'' @ replicate 80 0x61"
    by (simp add: longQuotedTitle_def escapeQuotes_def)
  then show ?thesis
    by (simp add: cardTitle_def quotedArticle_def slice0_def longQuotedTitle_def asc_def)
qed

lemma quoted_desc_field: "cardDesc quotedArticle = asc ''He said &quot;go&quot;''"
  by (simp add: cardDesc_def quotedArticle_def slice0_def escapeQuotes_def asc_def DQ_def)

lemma quoted_card:
  \<open>buildCards (\<lambda>d. asc ''October 30, 2026'') [quotedArticle] None =
        asc ''\<newline>                <div class="card fade-in">\<newline>                    <div class="card-image">''
        @ defaultEmoji
        @ asc ''</div>\<newline>                    <div class="card-content">\<newline>                        <div class="card-meta">''
        @ asc ''October 30, 2026''
        @ asc '' '' @ [0xB7] @ asc '' ''
        @ asc ''Wired''
        @ asc ''</div>\<newline>                        <h3 class="card-title">''
        @ (asc ''&quot;'' @ replicate 74 0x61)
        @ asc ''</h3>\<newline>                        <p class="card-summary">''
        @ asc ''He said &quot;go&quot;''
        @ asc ''</p>\<newline>                        <div class="card-footer">\<newline>                            <span class="card-tag">Latest News</span>\<newline>                            <a href="''
        @ asc ''https://news.test/?q="waymo"''
        @ asc ''" class="read-more" target="_blank">Read More</a>\<newline>                        </div>\<newline>                    </div>\<newline>                </div>''\<close>
proof -
  have s: "cardSource quotedArticle = asc ''Wired''"
    and u: \<open>cardUrl quotedArticle = asc ''https://news.test/?q="waymo"''\<close>
    by (simp_all add: cardSource_def cardUrl_def quotedArticle_def asc_def)
  show ?thesis
    by (simp only: buildCards_def card_def formatDate_def quoted_title_field quoted_desc_field
        s u list.map joinWith.simps option.case if_False list.distinct)
qed

lemma quoted_fields:
  "title quotedArticle = Some longQuotedTitle" "80 < length longQuotedTitle"
  \<open>description quotedArticle = Some (asc ''He said "go"'')\<close> \<open>asc ''He said "go"'' \<noteq> []\<close>
  \<open>url quotedArticle = Some (asc ''https://news.test/?q="waymo"'')\<close> \<open>asc ''https://news.test/?q="waymo"'' \<noteq> []\<close>
  "source quotedArticle = Some (Source (Some (asc ''Wired'')))" "asc ''Wired'' \<noteq> []"
  "quotedArticle \<in> set [sampleArticle, quotedArticle]"
  by (simp_all add: quotedArticle_def longQuotedTitle_def asc_def)

subsection \<open>The title field\<close>

text \<open>
  Claim C3 as stated fails. For a title of 81 units that starts with a double quote, the
  title field of the card \<open>buildCards\<close> renders is the entity and 74 letters, 80 units;
  the title cut to 80 units and then escaped has 85, which is 80 plus the expansion of its
  one double quote.
\<close>
theorem buildCards_title_truncated_then_escaped_counterexample:
  \<open>80 < length longQuotedTitle \<and> title quotedArticle = Some longQuotedTitle
   \<and> buildCards (\<lambda>d. asc ''October 30, 2026'') [quotedArticle] None =
        asc ''\<newline>                <div class="card fade-in">\<newline>                    <div class="card-image">''
        @ defaultEmoji
        @ asc ''</div>\<newline>                    <div class="card-content">\<newline>                        <div class="card-meta">''
        @ asc ''October 30, 2026''
        @ asc '' '' @ [0xB7] @ asc '' ''
        @ asc ''Wired''
        @ asc ''</div>\<newline>                        <h3 class="card-title">''
        @ (asc ''&quot;'' @ replicate 74 0x61)
        @ asc ''</h3>\<newline>                        <p class="card-summary">''
        @ asc ''He said &quot;go&quot;''
        @ asc ''</p>\<newline>                        <div class="card-footer">\<newline>                            <span class="card-tag">Latest News</span>\<newline>                            <a href="''
        @ asc ''https://news.test/?q="waymo"''
        @ asc ''" class="read-more" target="_blank">Read More</a>\<newline>                        </div>\<newline>                    </div>\<newline>                </div>''
   \<and> length (asc ''&quot;'' @ replicate 74 (0x61 :: unit16)) = 80
   \<and> length (concat (map (\<lambda>c. if c = DQ then asc ''&quot;'' else [c]) (take 80 longQuotedTitle))) = 85
   \<and> 80 + 5 * length (filter (\<lambda>c. c = DQ) (take 80 longQuotedTitle)) = 85\<close>
proof -
  have a: "length (asc ''&quot;'' @ replicate 74 (0x61 :: unit16)) = 80" by (simp add: asc_def)
  have k: "take 80 longQuotedTitle = DQ # replicate 79 0x61" by (simp add: longQuotedTitle_def)
  have f: "80 + 5 * length (filter (\<lambda>c. c = DQ) (take 80 longQuotedTitle)) = 85"
    unfolding k by (simp add: DQ_def)
  have "length (escapeQuotes (take 80 longQuotedTitle)) = 85"
    unfolding length_escapeQuotes using f k by simp
  then have e: "length (concat (map (\<lambda>c. if c = DQ then asc ''&quot;'' else [c]) (take 80 longQuotedTitle))) = 85"
    by (simp only: escapeQuotes_def)
  from quoted_fields(1,2) quoted_card a e f show ?thesis by blast
qed

text \<open>
  Claim C3, amended. For an article of the list whose title is longer than 80 units, the
  fragment of \<open>buildCards\<close> holds the article's card with, between the tags of its title
  heading, exactly 80 units: the title with every double quote replaced by the entity, cut
  to its first 80 units. The expansion of escaping counts toward the 80, and no double
  quote is left in the field.
\<close>
theorem buildCards_title_escaped_then_truncated:
  assumes "a \<in> set arts" and "title a = Some t" and "80 < length t"
  shows \<open>(\<exists>p r. buildCards ld arts e =
        p @ asc ''\<newline>                <div class="card fade-in">\<newline>                    <div class="card-image">''
        @ (case e of None \<Rightarrow> defaultEmoji | Some x \<Rightarrow> x)
        @ asc ''</div>\<newline>                    <div class="card-content">\<newline>                        <div class="card-meta">''
        @ ld (publishedAt a)
        @ asc '' '' @ [0xB7] @ asc '' ''
        @ cardSource a
        @ asc ''</div>\<newline>                        <h3 class="card-title">''
        @ take 80 (concat (map (\<lambda>c. if c = DQ then asc ''&quot;'' else [c]) t))
        @ asc ''</h3>\<newline>                        <p class="card-summary">''
        @ cardDesc a
        @ asc ''</p>\<newline>                        <div class="card-footer">\<newline>                            <span class="card-tag">Latest News</span>\<newline>                            <a href="''
        @ cardUrl a
        @ asc ''" class="read-more" target="_blank">Read More</a>\<newline>                        </div>\<newline>                    </div>\<newline>                </div>'' @ r)
     \<and> length (take 80 (concat (map (\<lambda>c. if c = DQ then asc ''&quot;'' else [c]) t))) = 80
     \<and> DQ \<notin> set (take 80 (concat (map (\<lambda>c. if c = DQ then asc ''&quot;'' else [c]) t)))\<close>
proof -
  from buildCards_card[OF assms(1), of ld e] obtain p r where
    b: "buildCards ld arts e = p @ card ld (case e of None \<Rightarrow> defaultEmoji | Some x \<Rightarrow> x) a @ r" by blast
  have c: \<open>card ld (case e of None \<Rightarrow> defaultEmoji | Some x \<Rightarrow> x) a =
        asc ''\<newline>                <div class="card fade-in">\<newline>                    <div class="card-image">''
        @ (case e of None \<Rightarrow> defaultEmoji | Some x \<Rightarrow> x)
        @ asc ''</div>\<newline>                    <div class="card-content">\<newline>                        <div class="card-meta">''
        @ ld (publishedAt a)
        @ asc '' '' @ [0xB7] @ asc '' ''
        @ cardSource a
        @ asc ''</div>\<newline>                        <h3 class="card-title">''
        @ take 80 (concat (map (\<lambda>c. if c = DQ then asc ''&quot;'' else [c]) t))
        @ asc ''</h3>\<newline>                        <p class="card-summary">''
        @ cardDesc a
        @ asc ''</p>\<newline>                        <div class="card-footer">\<newline>                            <span class="card-tag">Latest News</span>\<newline>                            <a href="''
        @ cardUrl a
        @ asc ''" class="read-more" target="_blank">Read More</a>\<newline>                        </div>\<newline>                    </div>\<newline>                </div>''\<close>
    by (simp only: card_def formatDate_def cardTitle_Some[OF assms(2)])
  from b have \<open>buildCards ld arts e =
        p @ asc ''\<newline>                <div class="card fade-in">\<newline>                    <div class="card-image">''
        @ (case e of None \<Rightarrow> defaultEmoji | Some x \<Rightarrow> x)
        @ asc ''</div>\<newline>                    <div class="card-content">\<newline>                        <div class="card-meta">''
        @ ld (publishedAt a)
        @ asc '' '' @ [0xB7] @ asc '' ''
        @ cardSource a
        @ asc ''</div>\<newline>                        <h3 class="card-title">''
        @ take 80 (concat (map (\<lambda>c. if c = DQ then asc ''&quot;'' else [c]) t))
        @ asc ''</h3>\<newline>                        <p class="card-summary">''
        @ cardDesc a
        @ asc ''</p>\<newline>                        <div class="card-footer">\<newline>                            <span class="card-tag">Latest News</span>\<newline>                            <a href="''
        @ cardUrl a
        @ asc ''" class="read-more" target="_blank">Read More</a>\<newline>                        </div>\<newline>                    </div>\<newline>                </div>'' @ r\<close>
    by (simp only: c append_assoc)
  then have 1: \<open>\<exists>p r. buildCards ld arts e =
        p @ asc ''\<newline>                <div class="card fade-in">\<newline>                    <div class="card-image">''
        @ (case e of None \<Rightarrow> defaultEmoji | Some x \<Rightarrow> x)
        @ asc ''</div>\<newline>                    <div class="card-content">\<newline>                        <div class="card-meta">''
        @ ld (publishedAt a)
        @ asc '' '' @ [0xB7] @ asc '' ''
        @ cardSource a
        @ asc ''</div>\<newline>                        <h3 class="card-title">''
        @ take 80 (concat (map (\<lambda>c. if c = DQ then asc ''&quot;'' else [c]) t))
        @ asc ''</h3>\<newline>                        <p class="card-summary">''
        @ cardDesc a
        @ asc ''</p>\<newline>                        <div class="card-footer">\<newline>                            <span class="card-tag">Latest News</span>\<newline>                            <a href="''
        @ cardUrl a
        @ asc ''" class="read-more" target="_blank">Read More</a>\<newline>                        </div>\<newline>                    </div>\<newline>                </div>'' @ r\<close>
    by blast
  from assms(3) escaped_length[of t] have 2: "length (take 80 (concat (map (\<lambda>c. if c = DQ then asc ''&quot;'' else [c]) t))) = 80" by simp
  from 1 2 escaped_no_quote[of 80 t] show ?thesis by blast
qed

theorem buildCards_title_escaped_then_truncated_witness:
  \<open>quotedArticle \<in> set [sampleArticle, quotedArticle] \<and> title quotedArticle = Some longQuotedTitle
   \<and> 80 < length longQuotedTitle
   \<and> (\<exists>p r. buildCards (\<lambda>d. asc ''October 30, 2026'') [sampleArticle, quotedArticle] None =
          p @ asc ''\<newline>                <div class="card fade-in">\<newline>                    <div class="card-image">''
          @ (case None of None \<Rightarrow> defaultEmoji | Some x \<Rightarrow> x)
          @ asc ''</div>\<newline>                    <div class="card-content">\<newline>                        <div class="card-meta">''
          @ asc ''October 30, 2026''
          @ asc '' '' @ [0xB7] @ asc '' ''
          @ cardSource quotedArticle
          @ asc ''</div>\<newline>                        <h3 class="card-title">''
          @ take 80 (concat (map (\<lambda>c. if c = DQ then asc ''&quot;'' else [c]) longQuotedTitle))
          @ asc ''</h3>\<newline>                        <p class="card-summary">''
          @ cardDesc quotedArticle
          @ asc ''</p>\<newline>                        <div class="card-footer">\<newline>                            <span class="card-tag">Latest News</span>\<newline>                            <a href="''
          @ cardUrl quotedArticle
          @ asc ''" class="read-more" target="_blank">Read More</a>\<newline>                        </div>\<newline>                    </div>\<newline>                </div>'' @ r)
   \<and> length (take 80 (concat (map (\<lambda>c. if c = DQ then asc ''&quot;'' else [c]) longQuotedTitle))) = 80
   \<and> DQ \<notin> set (take 80 (concat (map (\<lambda>c. if c = DQ then asc ''&quot;'' else [c]) longQuotedTitle)))\<close>
  using quoted_fields(9,1,2)
    buildCards_title_escaped_then_truncated[OF quoted_fields(9,1,2), of "(\<lambda>d. asc ''October 30, 2026'')" None]
  by blast

subsection \<open>What is escaped\<close>



section \<open>Fetching the news and the run\<close>

text \<open>
  Claim C4. With a credential configured, a fetch of one of the two topics whose body does
  not parse rejects with the parser's error; the run then ends in its \<open>catch\<close> and the disk
  is what it was.
\<close>
theorem fetchNews_unparseable_rejects_run_aborts:
  assumes "apiKey rt \<noteq> []" and "q = QUERIES_us \<or> q = QUERIES_china"
    and "provider rt (newsRequest q (fromDate rt) (apiKey rt)) = Body None"
  shows "fetchNews (apiKey rt) (provider rt) q (fromDate rt) = Inl SyntaxError
         \<and> fst (main rt fs) = fs \<and> snd (main rt fs) \<noteq> None"
proof -
  from assms(1,3) have r: "fetchNews (apiKey rt) (provider rt) q (fromDate rt) = Inl SyntaxError"
    by (simp add: fetchNews_def)
  from assms(2) r have "fst (main rt fs) = fs \<and> snd (main rt fs) \<noteq> None"
    by (auto simp: main_def split: sum.splits)
  with r show ?thesis by simp
qed

theorem fetchNews_unparseable_rejects_run_aborts_witness:
  "apiKey (sampleRuntime (\<lambda>r. Body None)) \<noteq> []
   \<and> provider (sampleRuntime (\<lambda>r. Body None))
        (newsRequest QUERIES_us (fromDate (sampleRuntime (\<lambda>r. Body None)))
           (apiKey (sampleRuntime (\<lambda>r. Body None)))) = Body None
   \<and> fetchNews (apiKey (sampleRuntime (\<lambda>r. Body None)))
        (provider (sampleRuntime (\<lambda>r. Body None))) QUERIES_us
        (fromDate (sampleRuntime (\<lambda>r. Body None))) = Inl SyntaxError
   \<and> fst (main (sampleRuntime (\<lambda>r. Body None)) sampleDisk) = sampleDisk
   \<and> snd (main (sampleRuntime (\<lambda>r. Body None)) sampleDisk) \<noteq> None"
proof -
  have k: "apiKey (sampleRuntime (\<lambda>r. Body None)) \<noteq> []"
    by (simp add: sampleRuntime_def asc_def)
  have p: "provider (sampleRuntime (\<lambda>r. Body None))
        (newsRequest QUERIES_us (fromDate (sampleRuntime (\<lambda>r. Body None)))
           (apiKey (sampleRuntime (\<lambda>r. Body None)))) = Body None"
    by (simp add: sampleRuntime_def)
  from fetchNews_unparseable_rejects_run_aborts[OF k _ p, of sampleDisk] k p
  show ?thesis by blast
qed

text \<open>
  A resolved value that is not an array ends the run in the \<open>catch\<close> when its
  \<open>length\<close> is truthy, and is passed over when it is not.
\<close>

lemma main_non_array:
  assumes "fetchNews (apiKey rt) (provider rt) QUERIES_us (fromDate rt) = Inr (NonArray hasLength)"
    and "fetchNews (apiKey rt) (provider rt) QUERIES_china (fromDate rt) = Inr (ArticleArray [])"
    and "indexHtml fs = Some html" and "writable fs"
  shows "main rt fs =
           (if hasLength then (fs, Some TypeError)
            else (fs\<lparr>indexHtml := Some (updateLastModified (today rt) html)\<rparr>, None))"
  using assms by (simp add: main_def)

text \<open>
  Claim C5 as stated fails for a payload that is not well-formed: with a credential
  configured, a body that parses to \<open>null\<close> and a body that does not parse both make
  \<open>fetchNews\<close> reject instead of resolving with the empty sequence.
\<close>
theorem fetchNews_empty_for_malformed_counterexample:
  "fetchNews (asc ''key'') (\<lambda>r. (Body (Some JNull) :: article response)) QUERIES_us
     (asc ''2026-10-19'') = Inl TypeError
   \<and> fetchNews (asc ''key'') (\<lambda>r. (Body (Some JNull) :: article response)) QUERIES_us
     (asc ''2026-10-19'') \<noteq> Inr (ArticleArray [])
   \<and> fetchNews (asc ''key'') (\<lambda>r. (Body None :: article response)) QUERIES_us
     (asc ''2026-10-19'') = Inl SyntaxError
   \<and> fetchNews (asc ''key'') (\<lambda>r. (Body None :: article response)) QUERIES_us
     (asc ''2026-10-19'') \<noteq> Inr (ArticleArray [])"
  by (simp add: fetchNews_def asc_def)

text \<open>
  Claim C5, amended. \<open>fetchNews\<close> resolves with the empty sequence when no credential is
  configured; when the payload parses to a value other than \<open>null\<close> whose status is not
  \<open>ok\<close>, whatever its articles property; and when the payload has status \<open>ok\<close> and its
  articles property is absent or falsy. A payload with status \<open>ok\<close> and a truthy articles
  property resolves with that property as it is. A body that does not parse, a body that
  parses to \<open>null\<close> and a failed connection make \<open>fetchNews\<close> reject.
\<close>
theorem fetchNews_empty_cases:
  "(NEWS_API_KEY = [] \<longrightarrow> fetchNews NEWS_API_KEY p q d = Inr (ArticleArray []))
   \<and> (NEWS_API_KEY \<noteq> [] \<and> p (newsRequest q d NEWS_API_KEY) = Body (Some (JValue st arts))
        \<and> st \<noteq> Some (asc ''ok'')
      \<longrightarrow> fetchNews NEWS_API_KEY p q d = Inr (ArticleArray []))
   \<and> (NEWS_API_KEY \<noteq> []
        \<and> p (newsRequest q d NEWS_API_KEY) = Body (Some (JValue (Some (asc ''ok'')) None))
      \<longrightarrow> fetchNews NEWS_API_KEY p q d = Inr (ArticleArray []))
   \<and> (NEWS_API_KEY \<noteq> []
        \<and> p (newsRequest q d NEWS_API_KEY) = Body (Some (JValue (Some (asc ''ok'')) (Some v)))
      \<longrightarrow> fetchNews NEWS_API_KEY p q d = Inr v)
   \<and> (NEWS_API_KEY \<noteq> [] \<and> p (newsRequest q d NEWS_API_KEY) = Body None
      \<longrightarrow> fetchNews NEWS_API_KEY p q d = Inl SyntaxError)
   \<and> (NEWS_API_KEY \<noteq> [] \<and> p (newsRequest q d NEWS_API_KEY) = Body (Some JNull)
      \<longrightarrow> fetchNews NEWS_API_KEY p q d = Inl TypeError)
   \<and> (NEWS_API_KEY \<noteq> [] \<and> p (newsRequest q d NEWS_API_KEY) = NetFailure
      \<longrightarrow> fetchNews NEWS_API_KEY p q d = Inl NetError)"
  by (auto simp: fetchNews_def)

theorem fetchNews_empty_cases_witness:
  "fetchNews [] (\<lambda>r. (NetFailure :: article response)) QUERIES_us (asc ''2026-10-19'')
     = Inr (ArticleArray [])
   \<and> fetchNews (asc ''key'')
        (\<lambda>r. Body (Some (JValue (Some (asc ''error'')) (Some (ArticleArray [sampleArticle])))))
        QUERIES_us (asc ''2026-10-19'') = Inr (ArticleArray [])
   \<and> fetchNews (asc ''key'')
        (\<lambda>r. (Body (Some (JValue (Some (asc ''ok'')) None)) :: article response))
        QUERIES_us (asc ''2026-10-19'') = Inr (ArticleArray [])
   \<and> fetchNews (asc ''key'')
        (\<lambda>r. (Body (Some (JValue (Some (asc ''ok'')) (Some (NonArray True)))) :: article response))
        QUERIES_us (asc ''2026-10-19'') = Inr (NonArray True)
   \<and> fetchNews (asc ''key'') (\<lambda>r. (Body None :: article response)) QUERIES_us
        (asc ''2026-10-19'') = Inl SyntaxError
   \<and> fetchNews (asc ''key'') (\<lambda>r. (Body (Some JNull) :: article response)) QUERIES_us
        (asc ''2026-10-19'') = Inl TypeError
   \<and> fetchNews (asc ''key'') (\<lambda>r. (NetFailure :: article response)) QUERIES_us
        (asc ''2026-10-19'') = Inl NetError"
proof -
  have k: "asc ''key'' \<noteq> []" and e: "Some (asc ''error'') \<noteq> Some (asc ''ok'')"
    by (simp_all add: asc_def)
  from fetchNews_empty_cases[of "[]" "\<lambda>r. (NetFailure :: article response)" QUERIES_us
      "asc ''2026-10-19''"]
  have a: "fetchNews [] (\<lambda>r. (NetFailure :: article response)) QUERIES_us (asc ''2026-10-19'')
      = Inr (ArticleArray [])" by blast
  from fetchNews_empty_cases[of "asc ''key''"
      "\<lambda>r. Body (Some (JValue (Some (asc ''error'')) (Some (ArticleArray [sampleArticle]))))"
      QUERIES_us "asc ''2026-10-19''" "Some (asc ''error'')"
      "Some (ArticleArray [sampleArticle])"] k e
  have b: "fetchNews (asc ''key'')
      (\<lambda>r. Body (Some (JValue (Some (asc ''error'')) (Some (ArticleArray [sampleArticle])))))
      QUERIES_us (asc ''2026-10-19'') = Inr (ArticleArray [])" by blast
  from fetchNews_empty_cases[of "asc ''key''"
      "\<lambda>r. (Body (Some (JValue (Some (asc ''ok'')) None)) :: article response)"
      QUERIES_us "asc ''2026-10-19''"] k
  have c: "fetchNews (asc ''key'')
      (\<lambda>r. (Body (Some (JValue (Some (asc ''ok'')) None)) :: article response))
      QUERIES_us (asc ''2026-10-19'') = Inr (ArticleArray [])" by blast
  from fetchNews_empty_cases[of "asc ''key''"
      "\<lambda>r. (Body (Some (JValue (Some (asc ''ok'')) (Some (NonArray True)))) :: article response)"
      QUERIES_us "asc ''2026-10-19''" _ _ "NonArray True"] k
  have d: "fetchNews (asc ''key'')
      (\<lambda>r. (Body (Some (JValue (Some (asc ''ok'')) (Some (NonArray True)))) :: article response))
      QUERIES_us (asc ''2026-10-19'') = Inr (NonArray True)" by blast
  from fetchNews_empty_cases[of "asc ''key''" "\<lambda>r. (Body None :: article response)" QUERIES_us
      "asc ''2026-10-19''"] k
  have f: "fetchNews (asc ''key'') (\<lambda>r. (Body None :: article response)) QUERIES_us
      (asc ''2026-10-19'') = Inl SyntaxError" by blast
  from fetchNews_empty_cases[of "asc ''key''" "\<lambda>r. (Body (Some JNull) :: article response)"
      QUERIES_us "asc ''2026-10-19''"] k
  have g: "fetchNews (asc ''key'') (\<lambda>r. (Body (Some JNull) :: article response)) QUERIES_us
      (asc ''2026-10-19'') = Inl TypeError" by blast
  from fetchNews_empty_cases[of "asc ''key''" "\<lambda>r. (NetFailure :: article response)" QUERIES_us
      "asc ''2026-10-19''"] k
  have h: "fetchNews (asc ''key'') (\<lambda>r. (NetFailure :: article response)) QUERIES_us
      (asc ''2026-10-19'') = Inl NetError" by blast
  from a b c d f g h show ?thesis by blast
qed

text \<open>
  Claim C6 as stated fails: when the provider answers with six articles, \<open>fetchNews\<close>
  resolves with all six.
\<close>
theorem fetchNews_at_most_five_counterexample:
  "fetchNews (asc ''key'')
      (\<lambda>r. Body (Some (JValue (Some (asc ''ok'')) (Some (ArticleArray (replicate 6 sampleArticle))))))
      QUERIES_us (asc ''2026-10-19'') = Inr (ArticleArray (replicate 6 sampleArticle))
   \<and> \<not> length (replicate 6 sampleArticle) \<le> 5"
  by (simp add: fetchNews_def asc_def)

text \<open>
  Claim C6, amended. \<open>fetchNews\<close> asks the provider for a page size of 5. What it resolves
  with is the empty sequence or, for a payload with status \<open>ok\<close>, the truthy articles
  property of the payload as it is: an array of any length, or a value that is not an
  array. A resolved array has at most 5 articles when every articles array the provider
  answers the request with has at most 5.
\<close>
theorem fetchNews_resolves_provider_articles:
  assumes "fetchNews NEWS_API_KEY p q d = Inr v"
  shows "map_of (newsRequest q d NEWS_API_KEY) ''pageSize'' = Some (asc ''5'')
         \<and> (v = ArticleArray []
              \<or> p (newsRequest q d NEWS_API_KEY) = Body (Some (JValue (Some (asc ''ok'')) (Some v))))
         \<and> (\<forall>as. v = ArticleArray as
              \<and> (\<forall>st arts. p (newsRequest q d NEWS_API_KEY)
                     = Body (Some (JValue st (Some (ArticleArray arts))))
                   \<longrightarrow> length arts \<le> 5)
              \<longrightarrow> length as \<le> 5)"
proof -
  have a: "map_of (newsRequest q d NEWS_API_KEY) ''pageSize'' = Some (asc ''5'')"
    by (simp add: newsRequest_def)
  from assms have b: "v = ArticleArray [] \<or> p (newsRequest q d NEWS_API_KEY)
      = Body (Some (JValue (Some (asc ''ok'')) (Some v)))"
    by (auto simp: fetchNews_def split: if_splits response.splits option.splits json.splits)
  then have "\<forall>as. v = ArticleArray as
              \<and> (\<forall>st arts. p (newsRequest q d NEWS_API_KEY)
                     = Body (Some (JValue st (Some (ArticleArray arts))))
                   \<longrightarrow> length arts \<le> 5)
              \<longrightarrow> length as \<le> 5" by auto
  with a b show ?thesis by blast
qed

theorem fetchNews_resolves_provider_articles_witness:
  "fetchNews (asc ''key'')
      (\<lambda>r. Body (Some (JValue (Some (asc ''ok'')) (Some (ArticleArray [sampleArticle, quotedArticle])))))
      QUERIES_us (asc ''2026-10-19'') = Inr (ArticleArray [sampleArticle, quotedArticle])
   \<and> map_of (newsRequest QUERIES_us (asc ''2026-10-19'') (asc ''key'')) ''pageSize''
       = Some (asc ''5'')
   \<and> length [sampleArticle, quotedArticle] \<le> 5"
proof -
  have f: "fetchNews (asc ''key'')
      (\<lambda>r. Body (Some (JValue (Some (asc ''ok'')) (Some (ArticleArray [sampleArticle, quotedArticle])))))
      QUERIES_us (asc ''2026-10-19'') = Inr (ArticleArray [sampleArticle, quotedArticle])"
    by (simp add: fetchNews_def asc_def)
  from fetchNews_resolves_provider_articles[OF f] f show ?thesis by simp
qed

section \<open>Requests to the static server\<close>

lemmas path_defs = posixJoin_def posixNormalize_def posixExtname_def SLASH_def DOT_def
  sampleFiles_def asc_def Let_def

text \<open>
  The POSIX module gives the extensions \<open>.html\<close> and \<open>.css\<close> for the joined paths of
  \<open>/index.html\<close> and \<open>/styles.css\<close>, whatever the directory: the last segment of the
  joined path is the file's name.
\<close>

lemma splitSlash_plain: "SLASH \<notin> set n \<Longrightarrow> splitSlash n = [n]"
  by (induction n) auto

lemma splitSlash_nonempty: "splitSlash x \<noteq> []"
  by (induction x) (auto split: list.splits)

lemma splitSlash_last:
  "SLASH \<notin> set n \<Longrightarrow> splitSlash (x @ SLASH # n) = splitSlash x @ [n]"
proof (induction x)
  case Nil
  then show ?case by (simp add: splitSlash_plain)
next
  case (Cons c x)
  then show ?case using splitSlash_nonempty[of x] by (cases "splitSlash x") auto
qed

lemma normalizeSegments_last:
  "n \<noteq> [] \<Longrightarrow> n \<noteq> [DOT] \<Longrightarrow> n \<noteq> [DOT, DOT] \<Longrightarrow>
     normalizeSegments a (segs @ [n]) res = normalizeSegments a segs res @ [n]"
  by (induction a segs res rule: normalizeSegments.induct) (auto split: list.splits)

lemma joinWith_last: "\<exists>z. joinWith [SLASH] (ys @ [n]) = z @ n \<and> (z = [] \<or> last z = SLASH)"
proof (induction ys)
  case Nil
  then show ?case by simp
next
  case (Cons y ys)
  then obtain z where z: "joinWith [SLASH] (ys @ [n]) = z @ n" "z = [] \<or> last z = SLASH"
    by blast
  obtain w ws where w: "ys @ [n] = w # ws" by (cases "ys @ [n]") auto
  then have "joinWith [SLASH] ((y # ys) @ [n]) = (y @ SLASH # z) @ n" using z(1) by simp
  moreover have "last (y @ SLASH # z) = SLASH" using z(2) by auto
  ultimately show ?case by blast
qed

lemma posixJoin_last:
  assumes "SLASH \<notin> set n" "n \<noteq> []" "n \<noteq> [DOT]" "n \<noteq> [DOT, DOT]"
  shows "\<exists>z. posixJoin d (SLASH # n) = z @ n \<and> (z = [] \<or> last z = SLASH)"
proof -
  define p where "p = (if d = [] then SLASH # n else d @ [SLASH] @ SLASH # n)"
  obtain x where x: "p = x @ SLASH # n"
    by (cases "d = []") (auto simp: p_def intro: that[of "[]"] that[of "d @ [SLASH]"])
  have "last n \<noteq> SLASH" by (metis assms(1,2) last_in_set)
  with assms(2) have l: "last p \<noteq> SLASH" unfolding x by simp
  have pn: "p \<noteq> []" unfolding x by simp
  let ?segs = "normalizeSegments (hd p \<noteq> SLASH) (splitSlash p) []"
  have "?segs = normalizeSegments (hd p \<noteq> SLASH) (splitSlash x) [] @ [n]"
    unfolding x using assms by (simp add: splitSlash_last normalizeSegments_last)
  with joinWith_last obtain z where z: "joinWith [SLASH] ?segs = z @ n" "z = [] \<or> last z = SLASH"
    by metis
  from z(1) assms(2) have qn: "joinWith [SLASH] ?segs \<noteq> []" by simp
  have "posixJoin d (SLASH # n) = posixNormalize p"
    by (simp add: posixJoin_def p_def)
  also have "\<dots> = ((if hd p = SLASH then [SLASH] else []) @ z) @ n"
    using pn l qn z(1) by (simp add: posixNormalize_def Let_def)
  finally have "posixJoin d (SLASH # n) = ((if hd p = SLASH then [SLASH] else []) @ z) @ n" .
  moreover have "(if hd p = SLASH then [SLASH] else []) @ z = []
      \<or> last ((if hd p = SLASH then [SLASH] else []) @ z) = SLASH"
    using z(2) by auto
  ultimately show ?thesis by blast
qed

lemma posixExtname_last:
  assumes "SLASH \<notin> set n" "n \<noteq> []" "z = [] \<or> last z = SLASH"
  shows "posixExtname (z @ n) = posixExtname n"
proof -
  from assms(1,2) have h: "hd (rev n) \<noteq> SLASH" "rev n \<noteq> []"
    by (auto simp: hd_rev) (metis last_in_set)
  then have d: "dropWhile (\<lambda>c. c = SLASH) (rev n @ rev z) = rev n @ rev z"
    "dropWhile (\<lambda>c. c = SLASH) (rev n) = rev n"
    by (cases "rev n"; simp)+
  from assms(1) have a: "\<forall>c\<in>set (rev n). c \<noteq> SLASH" by auto
  have t1: "takeWhile (\<lambda>c. c \<noteq> SLASH) (rev n @ rev z) = rev n"
  proof (cases "z = []")
    case True
    with a show ?thesis by simp
  next
    case False
    with assms(3) have "hd (rev z) = SLASH" "rev z \<noteq> []" by (auto simp: hd_rev)
    then have "takeWhile (\<lambda>c. c \<noteq> SLASH) (rev z) = []" by (cases "rev z") auto
    moreover have "takeWhile (\<lambda>c. c \<noteq> SLASH) (rev n @ rev z)
        = rev n @ takeWhile (\<lambda>c. c \<noteq> SLASH) (rev z)"
      by (rule takeWhile_append2) (use a in auto)
    ultimately show ?thesis by simp
  qed
  from a have t2: "takeWhile (\<lambda>c. c \<noteq> SLASH) (rev n) = rev n" by simp
  show ?thesis
    by (simp only: posixExtname_def Let_def rev_append d rev_rev_ident t1 t2)
qed

lemma posix_extname_of_join:
  "posixExtname (posixJoin d (asc ''/index.html'')) = asc ''.html''"
  "posixExtname (posixJoin d (asc ''/styles.css'')) = asc ''.css''"
proof -
  have i: "asc ''/index.html'' = SLASH # asc ''index.html''"
    and s: "asc ''/styles.css'' = SLASH # asc ''styles.css''"
    by (simp_all add: asc_def SLASH_def)
  have ni: "SLASH \<notin> set (asc ''index.html'')" "asc ''index.html'' \<noteq> []"
    "asc ''index.html'' \<noteq> [DOT]" "asc ''index.html'' \<noteq> [DOT, DOT]"
    and ns: "SLASH \<notin> set (asc ''styles.css'')" "asc ''styles.css'' \<noteq> []"
    "asc ''styles.css'' \<noteq> [DOT]" "asc ''styles.css'' \<noteq> [DOT, DOT]"
    by (simp_all add: asc_def SLASH_def DOT_def)
  have ei: "posixExtname (asc ''index.html'') = asc ''.html''"
    and es: "posixExtname (asc ''styles.css'') = asc ''.css''"
    by (simp_all add: path_defs)
  from posixJoin_last[OF ni, of d] obtain z where
    "posixJoin d (SLASH # asc ''index.html'') = z @ asc ''index.html''" "z = [] \<or> last z = SLASH"
    by blast
  with posixExtname_last[OF ni(1,2), of z] ei i
  show "posixExtname (posixJoin d (asc ''/index.html'')) = asc ''.html''" by simp
  from posixJoin_last[OF ns, of d] obtain z where
    "posixJoin d (SLASH # asc ''styles.css'') = z @ asc ''styles.css''" "z = [] \<or> last z = SLASH"
    by blast
  with posixExtname_last[OF ns(1,2), of z] es s
  show "posixExtname (posixJoin d (asc ''/styles.css'')) = asc ''.css''" by simp
qed

text \<open>
  Claim C8. With a path module that gives \<open>.html\<close> and \<open>.css\<close> as the extensions of the
  joined paths of \<open>/index.html\<close> and \<open>/styles.css\<close>: a request for \<open>/\<close> gets the answer
  of a request for \<open>/index.html\<close>, with content type \<open>text/html\<close>; a request for
  \<open>/styles.css\<close> whose file is read gets status 200, content type \<open>text/css\<close> and the
  file's text; and a request whose file read fails, for whatever reason, gets status 404 with
  the fixed fallback body.
\<close>
theorem handler_scenario:
  assumes html: "pathExtname (pathJoin dirname (asc ''/index.html'')) = asc ''.html''"
      and css: "pathExtname (pathJoin dirname (asc ''/styles.css'')) = asc ''.css''"
  shows "handler pathJoin pathExtname dirname readFile (asc ''/'')
           = handler pathJoin pathExtname dirname readFile (asc ''/index.html'')
     \<and> contentType (handler pathJoin pathExtname dirname readFile (asc ''/''))
           = asc ''text/html; charset=utf-8''
     \<and> (\<forall>data. readFile (pathJoin dirname (asc ''/styles.css'')) = Some data \<longrightarrow>
           handler pathJoin pathExtname dirname readFile (asc ''/styles.css'')
             = \<lparr>statusCode = 200, contentType = asc ''text/css; charset=utf-8'', body = data\<rparr>)
     \<and> (readFile (pathJoin dirname (if reqUrl = asc ''/'' then asc ''/index.html'' else reqUrl))
            = None \<longrightarrow>
           handler pathJoin pathExtname dirname readFile reqUrl
             = \<lparr>statusCode = 404, contentType = asc ''text/html; charset=utf-8'',
                body = notFoundBody\<rparr>)"
proof -
  have d1: "asc ''.html'' \<noteq> asc ''.css''" "asc ''.html'' \<noteq> asc ''.js''"
    "asc ''.css'' \<noteq> asc ''.js''" "asc ''/styles.css'' \<noteq> asc ''/''"
    by (simp_all add: asc_def)
  show ?thesis
    by (auto simp: handler_def Let_def html css d1 split: option.splits)
qed

theorem handler_scenario_witness:
  "posixExtname (posixJoin (asc ''/srv/site'') (asc ''/index.html'')) = asc ''.html''
   \<and> posixExtname (posixJoin (asc ''/srv/site'') (asc ''/styles.css'')) = asc ''.css''
   \<and> handler posixJoin posixExtname (asc ''/srv/site'') sampleFiles (asc ''/'')
       = handler posixJoin posixExtname (asc ''/srv/site'') sampleFiles (asc ''/index.html'')
   \<and> contentType (handler posixJoin posixExtname (asc ''/srv/site'') sampleFiles (asc ''/''))
       = asc ''text/html; charset=utf-8''
   \<and> handler posixJoin posixExtname (asc ''/srv/site'') sampleFiles (asc ''/styles.css'')
       = \<lparr>statusCode = 200, contentType = asc ''text/css; charset=utf-8'', body = asc ''body{}''\<rparr>
   \<and> handler posixJoin posixExtname (asc ''/srv/site'') sampleFiles (asc ''/missing.png'')
       = \<lparr>statusCode = 404, contentType = asc ''text/html; charset=utf-8'', body = notFoundBody\<rparr>"
proof -
  have j1: "posixJoin (asc ''/srv/site'') (asc ''/styles.css'') = asc ''/srv/site/styles.css''"
    and j2: "posixJoin (asc ''/srv/site'') (asc ''/missing.png'') = asc ''/srv/site/missing.png''"
    by (simp_all add: path_defs)
  have r1: "sampleFiles (asc ''/srv/site/styles.css'') = Some (asc ''body{}'')"
    and r2: "sampleFiles (asc ''/srv/site/missing.png'') = None"
    and n: "asc ''/missing.png'' \<noteq> asc ''/''"
    by (simp_all add: sampleFiles_def asc_def)
  note c = handler_scenario[where pathJoin = posixJoin and pathExtname = posixExtname
      and dirname = "asc ''/srv/site''" and readFile = sampleFiles
      and reqUrl = "asc ''/missing.png''", OF posix_extname_of_join]
  from c have c1: "handler posixJoin posixExtname (asc ''/srv/site'') sampleFiles (asc ''/'')
       = handler posixJoin posixExtname (asc ''/srv/site'') sampleFiles (asc ''/index.html'')"
    and c2: "contentType (handler posixJoin posixExtname (asc ''/srv/site'') sampleFiles (asc ''/''))
       = asc ''text/html; charset=utf-8''"
    by blast+
  from c j1 r1 have c3: "handler posixJoin posixExtname (asc ''/srv/site'') sampleFiles (asc ''/styles.css'')
       = \<lparr>statusCode = 200, contentType = asc ''text/css; charset=utf-8'', body = asc ''body{}''\<rparr>"
    by simp
  from c j2 r2 n have c4: "handler posixJoin posixExtname (asc ''/srv/site'') sampleFiles (asc ''/missing.png'')
       = \<lparr>statusCode = 404, contentType = asc ''text/html; charset=utf-8'', body = notFoundBody\<rparr>"
    by simp
  from posix_extname_of_join[of "asc ''/srv/site''"] c1 c2 c3 c4 show ?thesis by blast
qed

end
